theory Spec2Isabelle
  imports Main
begin

section \<open>JavaScript objects and their enumeration order\<close>

text \<open>
  A JavaScript object with string keys is modelled as an association list that holds
  its own properties in insertion order; a well-formed object has distinct keys.
  \<open>Object.entries\<close> does not enumerate in insertion order: keys that are array indices
  (canonical decimal numerals below \<open>2^32 - 1\<close>) come first, in ascending numeric
  order, and the remaining keys follow in insertion order.
\<close>

type_synonym 'v js_object = "(string \<times> 'v) list"

definition is_digit :: "char \<Rightarrow> bool" where
  "is_digit c = (48 \<le> (of_char c :: nat) \<and> (of_char c :: nat) \<le> 57)"

definition decimal_value :: "string \<Rightarrow> nat" where
  "decimal_value k = foldl (\<lambda>acc c. 10 * acc + ((of_char c :: nat) - 48)) 0 k"

definition array_index :: "string \<Rightarrow> nat option" where
  "array_index k =
     (if k \<noteq> [] \<and> list_all is_digit k \<and> (k = ''0'' \<or> hd k \<noteq> CHR ''0'')
         \<and> decimal_value k < 4294967295
      then Some (decimal_value k) else None)"

definition is_index_entry :: "string \<times> 'v \<Rightarrow> bool" where
  "is_index_entry kv = (array_index (fst kv) \<noteq> None)"

definition index_of_entry :: "string \<times> 'v \<Rightarrow> nat" where
  "index_of_entry kv = (case array_index (fst kv) of Some i \<Rightarrow> i | None \<Rightarrow> 0)"

definition object_entries :: "'v js_object \<Rightarrow> (string \<times> 'v) list" where
  "object_entries obj =
     sort_key index_of_entry (filter is_index_entry obj)
       @ filter (\<lambda>kv. \<not> is_index_entry kv) obj"

section \<open>The typed DOM tree (types of the DOM module)\<close>

text \<open>
  Nodes are JavaScript objects that refer to each other (children lists, parent
  back-references), so they live in an explicit store: a list of nodes, a reference
  being the index of the node. Numbers that are only carried along (viewport sizes,
  coordinates) are integers here. The field \<open>text\<close> of a text node is \<open>nodeText\<close>.
\<close>

type_synonym addr = nat

record ViewportInfo =
  vp_width :: int
  vp_height :: int

record CoordinateSet =
  c_top :: int
  c_left :: int
  c_bottom :: int
  c_right :: int
  c_width :: int
  c_height :: int

record DOMBaseNode =
  isVisible :: bool
  parent :: "addr option"

record DOMTextNode = DOMBaseNode +
  nodeText :: string

record DOMElementNode = DOMBaseNode +
  tagName :: string
  xpath :: string
  attributes :: "string js_object"
  children :: "addr list"
  isInteractive :: bool
  isTopElement :: bool
  isInViewport :: bool
  shadowRoot :: bool
  highlightIndex :: "int option"
  viewportCoordinates :: "CoordinateSet option"
  pageCoordinates :: "CoordinateSet option"
  viewportInfo :: "ViewportInfo option"

datatype node = Text DOMTextNode | Element DOMElementNode

type_synonym heap = "node list"

text \<open>
  How a call can fail to return a value: \<open>MalformedSnapshot\<close> is the error that
  construction throws; \<open>TypeError\<close> is what the runtime throws when a value that is not
  an element node is used as one; \<open>BadReference\<close> is a reference that is no node of the
  store, read where a node is expected (it keeps the functions total; for the objects
  that construction can link without their being nodes, see \<open>inherited_ref\<close>, the runtime
  throws there as well); \<open>Diverges\<close> is a loop or a recursion that does not end; \<open>Unmodelled\<close> is the outcome of construction for a raw
  table with the key \<open>__proto__\<close>, the one input whose construction is not followed
  (see \<open>process_entry\<close>).
\<close>

datatype failure =
    MalformedSnapshot
  | TypeError
  | BadReference
  | Diverges
  | Unmodelled

definition lookup :: "heap \<Rightarrow> addr \<Rightarrow> node option" where
  "lookup st a = (if a < length st then Some (st ! a) else None)"

fun parent_of :: "node \<Rightarrow> addr option" where
  "parent_of (Text t) = parent t"
| "parent_of (Element e) = parent e"

fun is_element :: "node \<Rightarrow> bool" where
  "is_element (Text t) = False"
| "is_element (Element e) = True"

fun children_of :: "node \<Rightarrow> addr list" where
  "children_of (Text t) = []"
| "children_of (Element e) = children e"

fun highlight_of :: "node \<Rightarrow> int option" where
  "highlight_of (Text t) = None"
| "highlight_of (Element e) = highlightIndex e"

text \<open>Reading \<open>tagName\<close> off a text node gives \<open>undefined\<close>, which \<open>join\<close> prints
  as the empty string.\<close>

fun tag_of :: "node \<Rightarrow> string" where
  "tag_of (Text t) = []"
| "tag_of (Element e) = tagName e"

section \<open>Tree construction (DOMService)\<close>

record RawElement =
  raw_tagName :: string
  raw_xpath :: string
  raw_attributes :: "string js_object option"
  raw_children :: "string list option"
  raw_isVisible :: "bool option"
  raw_isInteractive :: "bool option"
  raw_isTopElement :: "bool option"
  raw_isInViewport :: "bool option"
  raw_highlightIndex :: "int option"
  raw_shadowRoot :: "bool option"
  raw_viewport :: "ViewportInfo option"

datatype RawNode =
    RawNull
  | RawText string bool
  | RawElem RawElement

definition or_false :: "bool option \<Rightarrow> bool" where
  "or_false b = (case b of None \<Rightarrow> False | Some v \<Rightarrow> v)"

fun parseNode :: "RawNode \<Rightarrow> node option \<times> string list" where
  "parseNode RawNull = (None, [])"
| "parseNode (RawText t v) =
     (Some (Text \<lparr>isVisible = v, parent = None, nodeText = t\<rparr>), [])"
| "parseNode (RawElem r) =
     (Some (Element
        \<lparr>isVisible = or_false (raw_isVisible r),
         parent = None,
         tagName = raw_tagName r,
         xpath = raw_xpath r,
         attributes = (case raw_attributes r of None \<Rightarrow> [] | Some as \<Rightarrow> as),
         children = [],
         isInteractive = or_false (raw_isInteractive r),
         isTopElement = or_false (raw_isTopElement r),
         isInViewport = or_false (raw_isInViewport r),
         shadowRoot = or_false (raw_shadowRoot r),
         highlightIndex = raw_highlightIndex r,
         viewportCoordinates = None,
         pageCoordinates = None,
         viewportInfo = raw_viewport r\<rparr>),
      (case raw_children r of None \<Rightarrow> [] | Some cs \<Rightarrow> cs))"

text \<open>
  The node map is the plain object \<open>{}\<close>, and both \<open>childId in nodeMap\<close> and
  \<open>nodeMap[childId]\<close> follow its prototype chain. Its own properties are the ids stored
  so far: the field \<open>nodeMap\<close> of the state. Behind them are the twelve properties of
  \<open>Object.prototype\<close>, which every object inherits: \<open>constructor\<close> reads the function
  \<open>Object\<close>, \<open>__proto__\<close> reads \<open>Object.prototype\<close> itself, and each of the other ten
  names reads a function of its own.
\<close>

definition inherited_names :: "string list" where
  "inherited_names =
     [''constructor'', ''__defineGetter__'', ''__defineSetter__'', ''hasOwnProperty'',
      ''__lookupGetter__'', ''__lookupSetter__'', ''isPrototypeOf'', ''propertyIsEnumerable'',
      ''toString'', ''valueOf'', ''__proto__'', ''toLocaleString'']"

fun position :: "string \<Rightarrow> string list \<Rightarrow> nat" where
  "position k [] = 0"
| "position k (x # xs) = (if x = k then 0 else Suc (position k xs))"

text \<open>
  These twelve objects are not DOM nodes and are not in the store. The object that the
  inherited name at position \<open>i\<close> reads has the reference \<open>base + i\<close>, where \<open>base\<close> is
  the number of entries of the raw table: the store never grows beyond it, so such a
  reference is never the reference of a node. A traversal that comes to such a child
  reads \<open>children\<close> off an object that has none, and the runtime throws.
\<close>

definition inherited_ref :: "nat \<Rightarrow> string \<Rightarrow> addr" where
  "inherited_ref base k = base + position k inherited_names"

text \<open>
  The state of the construction loop. \<open>childNode.parent = node\<close> on one of the twelve
  objects gives that object an own property \<open>parent\<close>: \<open>inheritedParent\<close> holds it, by
  the name that reads the object. Under the name \<open>__proto__\<close> this is the property
  \<open>parent\<close> of \<open>Object.prototype\<close>, which the node map inherits in turn. The twelve
  objects are taken as the runtime creates them, without a \<open>parent\<close>, when construction
  begins; a construction from a table without inherited names leaves them so.
  \<open>foreignBase\<close> is the \<open>base\<close> above, and \<open>prototypeReplaced\<close> tells that the prototype
  of the node map is no longer \<open>Object.prototype\<close>.
\<close>

record cstate =
  heap_of :: heap
  nodeMap :: "string \<rightharpoonup> addr"
  selectorMap :: "int \<rightharpoonup> addr"
  inheritedParent :: "string \<rightharpoonup> addr"
  foreignBase :: nat
  prototypeReplaced :: bool

fun set_parent :: "addr \<Rightarrow> node \<Rightarrow> node" where
  "set_parent p (Text t) = Text (t\<lparr>parent := Some p\<rparr>)"
| "set_parent p (Element e) = Element (e\<lparr>parent := Some p\<rparr>)"

fun push_child :: "addr \<Rightarrow> node \<Rightarrow> node" where
  "push_child c (Text t) = Text t"
| "push_child c (Element e) = Element (e\<lparr>children := children e @ [c]\<rparr>)"

text \<open>
  What a property name reads in the node map: an own property, a stored node, comes
  first; then the twelve inherited names; then \<open>parent\<close>, once \<open>Object.prototype\<close> has
  that property, which reads the node assigned to it. \<open>None\<close> is a name for which
  \<open>name in nodeMap\<close> is false and \<open>nodeMap[name]\<close> is \<open>undefined\<close>.
\<close>

datatype target = StoredNode addr | InheritedObject string

definition read_nodeMap :: "cstate \<Rightarrow> string \<Rightarrow> target option" where
  "read_nodeMap s name =
     (case nodeMap s name of
        Some a \<Rightarrow> Some (StoredNode a)
      | None \<Rightarrow>
          if name \<in> set inherited_names then Some (InheritedObject name)
          else if name = ''parent'' then map_option StoredNode (inheritedParent s ''__proto__'')
          else None)"

text \<open>
  One turn of the inner loop: a child id for which \<open>childId in nodeMap\<close> is false is
  skipped; otherwise \<open>parent\<close> is set on what the id reads, and that is pushed onto the
  children of the node. When the id is an inherited name that no own property hides,
  the object it reads is linked like a node.
\<close>

definition connect_child :: "addr \<Rightarrow> string \<Rightarrow> cstate \<Rightarrow> cstate" where
  "connect_child a childId s =
     (case read_nodeMap s childId of
        None \<Rightarrow> s
      | Some (StoredNode c) \<Rightarrow>
          (let h1 = (heap_of s)[c := set_parent a (heap_of s ! c)];
               h2 = h1[a := push_child c (h1 ! a)]
           in s\<lparr>heap_of := h2\<rparr>)
      | Some (InheritedObject b) \<Rightarrow>
          s\<lparr>heap_of := (heap_of s)[a := push_child (inherited_ref (foreignBase s) b) (heap_of s ! a)],
            inheritedParent := (inheritedParent s)(b \<mapsto> a)\<rparr>)"

definition register_highlight :: "addr \<Rightarrow> node \<Rightarrow> cstate \<Rightarrow> cstate" where
  "register_highlight a n s =
     (case highlight_of n of
        None \<Rightarrow> s
      | Some i \<Rightarrow> s\<lparr>selectorMap := (selectorMap s)(i \<mapsto> a)\<rparr>)"

text \<open>
  \<open>nodeMap[id] = node\<close> stores an own property, also when the id is an inherited name,
  which it then hides. The id \<open>__proto__\<close> is the exception: it is an accessor of
  \<open>Object.prototype\<close>, and the assignment makes the node the prototype of the node map
  and stores nothing. What the map resolves from then on depends on every property of
  that node and is not followed: the state records that it happened, and construction
  ends \<open>Unmodelled\<close>.
\<close>

definition store_node :: "string \<Rightarrow> addr \<Rightarrow> cstate \<Rightarrow> cstate" where
  "store_node name a s =
     (if name = ''__proto__'' then s\<lparr>prototypeReplaced := True\<rparr>
      else s\<lparr>nodeMap := (nodeMap s)(name \<mapsto> a)\<rparr>)"

text \<open>One turn of the outer loop over \<open>Object.entries(jsNodeMap)\<close>.\<close>

definition process_entry :: "string \<times> RawNode \<Rightarrow> cstate \<Rightarrow> cstate" where
  "process_entry entry s =
     (case parseNode (snd entry) of
        (None, childrenIds) \<Rightarrow> s
      | (Some n, childrenIds) \<Rightarrow>
          (let a = length (heap_of s);
               s1 = store_node (fst entry) a (s\<lparr>heap_of := heap_of s @ [n]\<rparr>);
               s2 = register_highlight a n s1
           in if is_element n then fold (connect_child a) childrenIds s2 else s2))"

definition init_cstate :: "nat \<Rightarrow> cstate" where
  "init_cstate base =
     \<lparr>heap_of = [], nodeMap = Map.empty, selectorMap = Map.empty,
      inheritedParent = Map.empty, foreignBase = base, prototypeReplaced = False\<rparr>"

definition build_nodes :: "RawNode js_object \<Rightarrow> cstate" where
  "build_nodes jsNodeMap =
     fold process_entry (object_entries jsNodeMap) (init_cstate (length jsNodeMap))"

text \<open>
  The root is \<open>nodeMap[String(jsRootId)]\<close>, read like a child id. Construction throws
  unless that is an object with the property \<open>tagName\<close>: a text node has none, and
  neither has any of the twelve inherited objects.
\<close>

definition constructDOMTree ::
  "RawNode js_object \<Rightarrow> string \<Rightarrow> failure + (addr \<times> (int \<rightharpoonup> addr) \<times> heap)" where
  "constructDOMTree jsNodeMap jsRootId =
     (let s = build_nodes jsNodeMap in
      if prototypeReplaced s then Inl Unmodelled
      else
        case read_nodeMap s jsRootId of
          None \<Rightarrow> Inl MalformedSnapshot
        | Some (InheritedObject b) \<Rightarrow> Inl MalformedSnapshot
        | Some (StoredNode r) \<Rightarrow>
            (case lookup (heap_of s) r of
               Some (Element e) \<Rightarrow> Inr (r, selectorMap s, heap_of s)
             | _ \<Rightarrow> Inl MalformedSnapshot))"

section \<open>Fingerprints (HistoryTreeProcessor and ClickableElementProcessor)\<close>

text \<open>
  The hash primitive is \<open>createHash('sha256')\<close> of the runtime's crypto library; it is
  a parameter \<open>H\<close> of every function that hashes. A leading underscore of a source name
  is written \<open>priv_\<close>. Both classes carry the same private helpers, word for word; they
  are modelled once.

  A loop over parent links, and a recursion over children, need not end on a store that
  holds a cycle. Such functions take fuel: the number of turns, or the depth of calls,
  that is allowed; running out of it is the result \<open>Inl Diverges\<close>.
\<close>

text \<open>\<open>_hashString\<close> hashes \<open>str || ''\<close>, which is \<open>str\<close> for a string.\<close>

definition priv_hashString :: "(string \<Rightarrow> string) \<Rightarrow> string \<Rightarrow> string" where
  "priv_hashString H str = H str"

fun join :: "string \<Rightarrow> string list \<Rightarrow> string" where
  "join sep [] = []"
| "join sep [x] = x"
| "join sep (x # y # ys) = x @ sep @ join sep (y # ys)"

text \<open>The \<open>while\<close> loop of \<open>_getParentBranchPath\<close>: \<open>parents\<close> collects the current
  element as long as it has a parent.\<close>

fun parent_loop :: "nat \<Rightarrow> heap \<Rightarrow> addr \<Rightarrow> addr list \<Rightarrow> failure + addr list" where
  "parent_loop 0 st cur parents = Inl Diverges"
| "parent_loop (Suc n) st cur parents =
     (case lookup st cur of
        None \<Rightarrow> Inl BadReference
      | Some nd \<Rightarrow>
          (case parent_of nd of
             None \<Rightarrow> Inr parents
           | Some p \<Rightarrow> parent_loop n st p (parents @ [cur])))"

definition tag_at :: "heap \<Rightarrow> addr \<Rightarrow> string" where
  "tag_at st a = (case lookup st a of None \<Rightarrow> [] | Some nd \<Rightarrow> tag_of nd)"

definition priv_getParentBranchPath :: "nat \<Rightarrow> heap \<Rightarrow> addr \<Rightarrow> failure + string list" where
  "priv_getParentBranchPath fuel st a =
     (case parent_loop fuel st a [] of
        Inl f \<Rightarrow> Inl f
      | Inr parents \<Rightarrow> Inr (map (tag_at st) (rev parents)))"

definition priv_parentBranchPathHash :: "(string \<Rightarrow> string) \<Rightarrow> string list \<Rightarrow> string" where
  "priv_parentBranchPathHash H parentBranchPath = priv_hashString H (join ''/'' parentBranchPath)"

definition attributesString :: "string js_object \<Rightarrow> string" where
  "attributesString attrs = concat (map (\<lambda>kv. fst kv @ ''='' @ snd kv) (object_entries attrs))"

definition priv_attributesHash :: "(string \<Rightarrow> string) \<Rightarrow> string js_object \<Rightarrow> string" where
  "priv_attributesHash H attrs = priv_hashString H (attributesString attrs)"

definition priv_xpathHash :: "(string \<Rightarrow> string) \<Rightarrow> string \<Rightarrow> string" where
  "priv_xpathHash H xp = priv_hashString H xp"

record HashedDomElement =
  branchPathHash :: string
  attributesHash :: string
  xpathHash :: string

record DOMHistoryElement =
  h_tagName :: string
  h_xpath :: string
  h_highlightIndex :: "int option"
  entireParentBranchPath :: "string list"
  h_attributes :: "string js_object"
  h_shadowRoot :: bool
  cssSelector :: "string option"
  h_pageCoordinates :: "CoordinateSet option"
  h_viewportCoordinates :: "CoordinateSet option"
  h_viewportInfo :: "ViewportInfo option"

text \<open>The functions below take a \<open>DOMElementNode\<close>; a reference to a text node is
  outside their parameter type and is answered with \<open>TypeError\<close>.\<close>

definition convertDomElementToHistoryElement ::
  "nat \<Rightarrow> heap \<Rightarrow> addr \<Rightarrow> failure + DOMHistoryElement" where
  "convertDomElementToHistoryElement fuel st a =
     (case priv_getParentBranchPath fuel st a of
        Inl f \<Rightarrow> Inl f
      | Inr parentBranchPath \<Rightarrow>
          (case lookup st a of
             Some (Element e) \<Rightarrow>
               Inr \<lparr>h_tagName = tagName e,
                    h_xpath = xpath e,
                    h_highlightIndex = highlightIndex e,
                    entireParentBranchPath = parentBranchPath,
                    h_attributes = attributes e,
                    h_shadowRoot = shadowRoot e,
                    cssSelector = None,
                    h_pageCoordinates = pageCoordinates e,
                    h_viewportCoordinates = viewportCoordinates e,
                    h_viewportInfo = viewportInfo e\<rparr>
           | Some (Text t) \<Rightarrow> Inl TypeError
           | None \<Rightarrow> Inl BadReference))"

definition priv_hashDomHistoryElement ::
  "(string \<Rightarrow> string) \<Rightarrow> DOMHistoryElement \<Rightarrow> HashedDomElement" where
  "priv_hashDomHistoryElement H h =
     \<lparr>branchPathHash = priv_parentBranchPathHash H (entireParentBranchPath h),
      attributesHash = priv_attributesHash H (h_attributes h),
      xpathHash = priv_xpathHash H (h_xpath h)\<rparr>"

definition priv_hashDomElement ::
  "nat \<Rightarrow> (string \<Rightarrow> string) \<Rightarrow> heap \<Rightarrow> addr \<Rightarrow> failure + HashedDomElement" where
  "priv_hashDomElement fuel H st a =
     (case priv_getParentBranchPath fuel st a of
        Inl f \<Rightarrow> Inl f
      | Inr parentBranchPath \<Rightarrow>
          (case lookup st a of
             Some (Element e) \<Rightarrow>
               Inr \<lparr>branchPathHash = priv_parentBranchPathHash H parentBranchPath,
                    attributesHash = priv_attributesHash H (attributes e),
                    xpathHash = priv_xpathHash H (xpath e)\<rparr>
           | Some (Text t) \<Rightarrow> Inl TypeError
           | None \<Rightarrow> Inl BadReference))"

definition hashes_equal :: "HashedDomElement \<Rightarrow> HashedDomElement \<Rightarrow> bool" where
  "hashes_equal x y =
     (branchPathHash x = branchPathHash y \<and>
      attributesHash x = attributesHash y \<and>
      xpathHash x = xpathHash y)"

definition compareHistoryElementAndDomElement ::
  "nat \<Rightarrow> (string \<Rightarrow> string) \<Rightarrow> heap \<Rightarrow> DOMHistoryElement \<Rightarrow> addr \<Rightarrow> failure + bool" where
  "compareHistoryElementAndDomElement fuel H st h a =
     (let hashedDomHistoryElement = priv_hashDomHistoryElement H h in
      case priv_hashDomElement fuel H st a of
        Inl f \<Rightarrow> Inl f
      | Inr hashedDomElement \<Rightarrow> Inr (hashes_equal hashedDomHistoryElement hashedDomElement))"

text \<open>The test at the head of \<open>processNode\<close>: only a node with a highlight index is
  hashed and compared.\<close>

definition node_matches ::
  "nat \<Rightarrow> (string \<Rightarrow> string) \<Rightarrow> heap \<Rightarrow> HashedDomElement \<Rightarrow> addr \<Rightarrow> int option \<Rightarrow> failure + bool" where
  "node_matches fuel H st hashedDomHistoryElement a hl =
     (case hl of
        None \<Rightarrow> Inr False
      | Some i \<Rightarrow>
          (case priv_hashDomElement fuel H st a of
             Inl f \<Rightarrow> Inl f
           | Inr hashedNode \<Rightarrow> Inr (hashes_equal hashedNode hashedDomHistoryElement)))"

text \<open>The \<open>for\<close> loop of \<open>processNode\<close> over the children; \<open>rec\<close> is the recursive
  call.\<close>

fun process_children ::
  "(addr \<Rightarrow> failure + addr option) \<Rightarrow> heap \<Rightarrow> addr list \<Rightarrow> failure + addr option" where
  "process_children rec st [] = Inr None"
| "process_children rec st (c # cs) =
     (case lookup st c of
        None \<Rightarrow> Inl BadReference
      | Some (Text t) \<Rightarrow> process_children rec st cs
      | Some (Element e) \<Rightarrow>
          (case rec c of
             Inl f \<Rightarrow> Inl f
           | Inr (Some r) \<Rightarrow> Inr (Some r)
           | Inr None \<Rightarrow> process_children rec st cs))"

primrec processNode ::
  "nat \<Rightarrow> nat \<Rightarrow> (string \<Rightarrow> string) \<Rightarrow> heap \<Rightarrow> HashedDomElement \<Rightarrow> addr \<Rightarrow> failure + addr option" where
  "processNode 0 fuel H st hh a = Inl Diverges"
| "processNode (Suc depth) fuel H st hh a =
     (case lookup st a of
        None \<Rightarrow> Inl BadReference
      | Some (Text t) \<Rightarrow> Inl TypeError
      | Some (Element e) \<Rightarrow>
          (case node_matches fuel H st hh a (highlightIndex e) of
             Inl f \<Rightarrow> Inl f
           | Inr True \<Rightarrow> Inr (Some a)
           | Inr False \<Rightarrow> process_children (processNode depth fuel H st hh) st (children e)))"

definition findHistoryElementInTree ::
  "nat \<Rightarrow> (string \<Rightarrow> string) \<Rightarrow> heap \<Rightarrow> DOMHistoryElement \<Rightarrow> addr \<Rightarrow> failure + addr option" where
  "findHistoryElementInTree fuel H st domHistoryElement tree =
     (let hashedDomHistoryElement = priv_hashDomHistoryElement H domHistoryElement
      in processNode fuel fuel H st hashedDomHistoryElement tree)"

text \<open>The \<open>for\<close> loop of \<open>getClickableElements\<close>; \<open>rec\<close> is the recursive call and
  \<open>acc\<close> the list \<open>clickableElements\<close>.\<close>

fun collect_children ::
  "(addr \<Rightarrow> failure + addr list) \<Rightarrow> heap \<Rightarrow> addr list \<Rightarrow> addr list \<Rightarrow> failure + addr list" where
  "collect_children rec st [] acc = Inr acc"
| "collect_children rec st (c # cs) acc =
     (case lookup st c of
        None \<Rightarrow> Inl BadReference
      | Some (Text t) \<Rightarrow> collect_children rec st cs acc
      | Some (Element e) \<Rightarrow>
          (let acc1 = (if highlightIndex e \<noteq> None then acc @ [c] else acc) in
           case rec c of
             Inl f \<Rightarrow> Inl f
           | Inr sub \<Rightarrow> collect_children rec st cs (acc1 @ sub)))"

primrec getClickableElements :: "nat \<Rightarrow> heap \<Rightarrow> addr \<Rightarrow> failure + addr list" where
  "getClickableElements 0 st a = Inl Diverges"
| "getClickableElements (Suc depth) st a =
     (case lookup st a of
        None \<Rightarrow> Inl BadReference
      | Some (Text t) \<Rightarrow> Inl TypeError
      | Some (Element e) \<Rightarrow> collect_children (getClickableElements depth st) st (children e) [])"

definition hashDomElement ::
  "nat \<Rightarrow> (string \<Rightarrow> string) \<Rightarrow> heap \<Rightarrow> addr \<Rightarrow> failure + string" where
  "hashDomElement fuel H st a =
     (case priv_getParentBranchPath fuel st a of
        Inl f \<Rightarrow> Inl f
      | Inr parentBranchPath \<Rightarrow>
          (case lookup st a of
             Some (Element e) \<Rightarrow>
               Inr (priv_hashString H
                      (priv_parentBranchPathHash H parentBranchPath @ ''-''
                       @ priv_attributesHash H (attributes e) @ ''-''
                       @ priv_xpathHash H (xpath e)))
           | Some (Text t) \<Rightarrow> Inl TypeError
           | None \<Rightarrow> Inl BadReference))"

fun map_results :: "('a \<Rightarrow> failure + 'b) \<Rightarrow> 'a list \<Rightarrow> failure + 'b list" where
  "map_results f [] = Inr []"
| "map_results f (x # xs) =
     (case f x of
        Inl e \<Rightarrow> Inl e
      | Inr y \<Rightarrow> (case map_results f xs of Inl e \<Rightarrow> Inl e | Inr ys \<Rightarrow> Inr (y # ys)))"

definition getClickableElementsHashes ::
  "nat \<Rightarrow> (string \<Rightarrow> string) \<Rightarrow> heap \<Rightarrow> addr \<Rightarrow> failure + string set" where
  "getClickableElementsHashes fuel H st domElement =
     (case getClickableElements fuel st domElement of
        Inl f \<Rightarrow> Inl f
      | Inr clickableElements \<Rightarrow>
          (case map_results (hashDomElement fuel H st) clickableElements of
             Inl f \<Rightarrow> Inl f
           | Inr hashes \<Rightarrow> Inr (set hashes)))"

section \<open>The scenario tables\<close>

text \<open>A raw element record that carries only the fields a scenario gives.\<close>

definition raw_element ::
  "string \<Rightarrow> string \<Rightarrow> string js_object \<Rightarrow> string list \<Rightarrow> int option \<Rightarrow> bool option \<Rightarrow> RawNode" where
  "raw_element tag xp attrs cs hl interactive =
     RawElem \<lparr>raw_tagName = tag, raw_xpath = xp, raw_attributes = Some attrs,
              raw_children = Some cs, raw_isVisible = None, raw_isInteractive = interactive,
              raw_isTopElement = None, raw_isInViewport = None, raw_highlightIndex = hl,
              raw_shadowRoot = None, raw_viewport = None\<rparr>"

text \<open>The element node that \<open>parseNode\<close> makes of such a record, with the given
  children and parent.\<close>

definition element_node ::
  "string \<Rightarrow> string \<Rightarrow> string js_object \<Rightarrow> addr list \<Rightarrow> int option \<Rightarrow> bool \<Rightarrow> addr option \<Rightarrow> node" where
  "element_node tag xp attrs cs hl interactive par =
     Element \<lparr>isVisible = False, parent = par, tagName = tag, xpath = xp,
              attributes = attrs, children = cs, isInteractive = interactive,
              isTopElement = False, isInViewport = False, shadowRoot = False,
              highlightIndex = hl, viewportCoordinates = None, pageCoordinates = None,
              viewportInfo = None\<rparr>"

text \<open>The table of the specification's scenario: the body has id \<open>0\<close>, the button
  id \<open>1\<close>.\<close>

definition scenario_table :: "RawNode js_object" where
  "scenario_table =
     [(''0'', raw_element ''body'' ''/html/body'' [] [''1''] None None),
      (''1'', raw_element ''button'' ''/html/body/button'' [(''id'', ''go'')] [] (Some 0) (Some True))]"

definition scenario_heap :: heap where
  "scenario_heap =
     [element_node ''body'' ''/html/body'' [] [] None False None,
      element_node ''button'' ''/html/body/button'' [(''id'', ''go'')] [] (Some 0) True None]"

text \<open>The same page with the ids the other way round: the button, the child, has the
  smaller id and is enumerated first.\<close>

definition bottom_up_table :: "RawNode js_object" where
  "bottom_up_table =
     [(''0'', raw_element ''button'' ''/html/body/button'' [(''id'', ''go'')] [] (Some 0) (Some True)),
      (''1'', raw_element ''body'' ''/html/body'' [] [''0''] None None)]"

definition bottom_up_heap :: heap where
  "bottom_up_heap =
     [element_node ''button'' ''/html/body/button'' [(''id'', ''go'')] [] (Some 0) True (Some 1),
      element_node ''body'' ''/html/body'' [] [0] None False None]"

definition button_record :: "string list \<Rightarrow> DOMHistoryElement" where
  "button_record path =
     \<lparr>h_tagName = ''button'', h_xpath = ''/html/body/button'', h_highlightIndex = Some 0,
      entireParentBranchPath = path, h_attributes = [(''id'', ''go'')], h_shadowRoot = False,
      cssSelector = None, h_pageCoordinates = None, h_viewportCoordinates = None,
      h_viewportInfo = None\<rparr>"

section \<open>Specification-level notions\<close>

text \<open>
  Construction allocates the nodes in enumeration order and links a child only when it
  has been allocated already: in a store it builds, children have smaller references
  than their parent. These two predicates state that shape; on such a store every walk
  ends.
\<close>

definition children_below :: "heap \<Rightarrow> bool" where
  "children_below st =
     (\<forall>a\<in>set [0..<length st]. \<forall>c\<in>set (children_of (st ! a)). c < a)"

definition parents_above :: "heap \<Rightarrow> bool" where
  "parents_above st =
     (\<forall>a\<in>set [0..<length st].
        case parent_of (st ! a) of None \<Rightarrow> True | Some p \<Rightarrow> a < p \<and> p < length st)"

text \<open>Every node in a children list points back to the node that holds the list.\<close>

definition parent_child_consistent :: "heap \<Rightarrow> bool" where
  "parent_child_consistent st =
     (\<forall>a\<in>set [0..<length st]. \<forall>c\<in>set (children_of (st ! a)).
        c < length st \<and> parent_of (st ! c) = Some a)"

definition child_relation :: "heap \<Rightarrow> (addr \<times> addr) set" where
  "child_relation st = {(c, a). a < length st \<and> c \<in> set (children_of (st ! a))}"

definition is_element_at :: "heap \<Rightarrow> addr \<Rightarrow> bool" where
  "is_element_at st a = (case lookup st a of None \<Rightarrow> False | Some nd \<Rightarrow> is_element nd)"

definition children_at :: "heap \<Rightarrow> addr \<Rightarrow> addr list" where
  "children_at st a = (case lookup st a of None \<Rightarrow> [] | Some nd \<Rightarrow> children_of nd)"

definition highlighted :: "heap \<Rightarrow> addr \<Rightarrow> bool" where
  "highlighted st a = (case lookup st a of None \<Rightarrow> False | Some nd \<Rightarrow> highlight_of nd \<noteq> None)"

text \<open>The element nodes under a node in pre-order, depth first: the node, then the
  subtrees of its element children from left to right. The first argument bounds the
  depth.\<close>

primrec preorder :: "nat \<Rightarrow> heap \<Rightarrow> addr \<Rightarrow> addr list" where
  "preorder 0 st a = []"
| "preorder (Suc depth) st a =
     a # concat (map (preorder depth st) (filter (is_element_at st) (children_at st a)))"

text \<open>The parent links from a node upwards: the node, its parent, and so on up to the
  node that has no parent. The first argument bounds the number of steps.\<close>

primrec chain_up :: "nat \<Rightarrow> heap \<Rightarrow> addr \<Rightarrow> addr list" where
  "chain_up 0 st a = [a]"
| "chain_up (Suc n) st a =
     (case lookup st a of
        None \<Rightarrow> [a]
      | Some nd \<Rightarrow> (case parent_of nd of None \<Rightarrow> [a] | Some p \<Rightarrow> a # chain_up n st p))"

text \<open>A node is a match for a hashed history record when it carries a highlight index
  and its three hashes are those of the record.\<close>

definition is_match :: "nat \<Rightarrow> (string \<Rightarrow> string) \<Rightarrow> heap \<Rightarrow> HashedDomElement \<Rightarrow> addr \<Rightarrow> bool" where
  "is_match fuel H st hh a =
     (highlighted st a \<and>
      (case priv_hashDomElement fuel H st a of
         Inl f \<Rightarrow> False
       | Inr hashedNode \<Rightarrow> hashes_equal hashedNode hh))"

text \<open>The three digests of an element joined with \<open>-\<close>.\<close>

definition composite_string :: "nat \<Rightarrow> (string \<Rightarrow> string) \<Rightarrow> heap \<Rightarrow> addr \<Rightarrow> string" where
  "composite_string fuel H st a =
     (case priv_hashDomElement fuel H st a of
        Inl f \<Rightarrow> []
      | Inr hashed \<Rightarrow> branchPathHash hashed @ ''-'' @ attributesHash hashed @ ''-'' @ xpathHash hashed)"

text \<open>The hash set as the specification words it: the composite strings of the
  collected elements.\<close>

definition spec_hashSet :: "nat \<Rightarrow> (string \<Rightarrow> string) \<Rightarrow> heap \<Rightarrow> addr \<Rightarrow> failure + string set" where
  "spec_hashSet fuel H st root =
     (case getClickableElements fuel st root of
        Inl f \<Rightarrow> Inl f
      | Inr clickableElements \<Rightarrow> Inr (composite_string fuel H st ` set clickableElements))"

text \<open>A store like \<open>bottom_up_heap\<close> whose root carries a highlight index too.\<close>

definition highlighted_root_heap :: heap where
  "highlighted_root_heap =
     [element_node ''button'' ''/html/body/button'' [(''id'', ''go'')] [] (Some 0) True (Some 1),
      element_node ''body'' ''/html/body'' [] [0] (Some 1) False None]"

definition body_record :: DOMHistoryElement where
  "body_record =
     \<lparr>h_tagName = ''body'', h_xpath = ''/html/body'', h_highlightIndex = Some 1,
      entireParentBranchPath = [], h_attributes = [], h_shadowRoot = False,
      cssSelector = None, h_pageCoordinates = None, h_viewportCoordinates = None,
      h_viewportInfo = None\<rparr>"

text \<open>A table whose body lists the id \<open>7\<close>, which the table does not hold.\<close>

definition dangling_table :: "RawNode js_object" where
  "dangling_table =
     [(''0'', raw_element ''button'' ''/html/body/button'' [(''id'', ''go'')] [] (Some 0) (Some True)),
      (''1'', raw_element ''body'' ''/html/body'' [] [''0'', ''7''] None None)]"

text \<open>A table in which the \<open>div\<close> lists itself, the text node is listed by two
  elements, and the root is listed by the body.\<close>

definition tangled_table :: "RawNode js_object" where
  "tangled_table =
     [(''0'', RawText ''hello'' True),
      (''1'', raw_element ''div'' ''/html/body/div'' [] [''0'', ''1''] None None),
      (''2'', raw_element ''body'' ''/html/body'' [] [''0'', ''1''] None None)]"

definition tangled_heap :: heap where
  "tangled_heap =
     [Text \<lparr>isVisible = True, parent = Some 2, nodeText = ''hello''\<rparr>,
      element_node ''div'' ''/html/body/div'' [] [0, 1] None False (Some 2),
      element_node ''body'' ''/html/body'' [] [0, 1] None False None]"

text \<open>A table whose body lists the id \<open>constructor\<close>, which the table does not hold
  and every object inherits. The store has the one node, the body, and its child is the
  function \<open>Object\<close>.\<close>

definition inherited_child_table :: "RawNode js_object" where
  "inherited_child_table =
     [(''0'', raw_element ''body'' ''/html/body'' [] [''constructor''] None None)]"

definition inherited_child_heap :: heap where
  "inherited_child_heap =
     [element_node ''body'' ''/html/body'' [] [inherited_ref 1 ''constructor''] None False None]"

text \<open>A table whose body lists the id \<open>__proto__\<close>, which reads \<open>Object.prototype\<close>.\<close>

definition proto_child_table :: "RawNode js_object" where
  "proto_child_table =
     [(''0'', raw_element ''body'' ''/html/body'' [] [''__proto__''] None None)]"

definition proto_child_heap :: heap where
  "proto_child_heap =
     [element_node ''body'' ''/html/body'' [] [inherited_ref 1 ''__proto__''] None False None]"

text \<open>A table whose body lists \<open>__proto__\<close> and whose \<open>div\<close>, enumerated after the
  body, lists \<open>parent\<close>; no record lists an id of the table.\<close>

definition proto_parent_table :: "RawNode js_object" where
  "proto_parent_table =
     [(''0'', raw_element ''body'' ''/html/body'' [] [''__proto__''] None None),
      (''1'', raw_element ''div'' ''/html/body/div'' [] [''parent''] None None)]"

definition proto_parent_heap :: heap where
  "proto_parent_heap =
     [element_node ''body'' ''/html/body'' [] [inherited_ref 2 ''__proto__''] None False (Some 1),
      element_node ''div'' ''/html/body/div'' [] [0] None False None]"

text \<open>Two attribute objects with the same pairs, inserted in opposite orders.\<close>

definition attrs_forward :: "string js_object" where
  "attrs_forward = [(''a'', ''''), (''a=a'', '''')]"

definition attrs_backward :: "string js_object" where
  "attrs_backward = [(''a=a'', ''''), (''a'', '''')]"

definition attrs_id_class :: "string js_object" where
  "attrs_id_class = [(''id'', ''go''), (''class'', ''btn'')]"

definition attrs_class_id :: "string js_object" where
  "attrs_class_id = [(''class'', ''btn''), (''id'', ''go'')]"

section \<open>Conditions on a raw table\<close>

definition childIds :: "RawNode \<Rightarrow> string list" where
  "childIds raw = snd (parseNode raw)"

text \<open>No record lists its own id among its children.\<close>

definition no_self_listing :: "RawNode js_object \<Rightarrow> bool" where
  "no_self_listing tbl = (\<forall>(k, raw)\<in>set tbl. k \<notin> set (childIds raw))"

text \<open>No id is listed by two different records.\<close>

definition single_listing :: "RawNode js_object \<Rightarrow> bool" where
  "single_listing tbl =
     (\<forall>(k, raw)\<in>set tbl. \<forall>(k', raw')\<in>set tbl.
        k \<noteq> k' \<longrightarrow> set (childIds raw) \<inter> set (childIds raw') = {})"

text \<open>No record lists the given id.\<close>

definition unlisted :: "RawNode js_object \<Rightarrow> string \<Rightarrow> bool" where
  "unlisted tbl rootId = (\<forall>(k, raw)\<in>set tbl. rootId \<notin> set (childIds raw))"

text \<open>No key and no listed child id is a property name that every object inherits.\<close>

definition plain_ids :: "RawNode js_object \<Rightarrow> bool" where
  "plain_ids tbl =
     (\<forall>(k, raw)\<in>set tbl.
        k \<notin> set inherited_names \<and> (\<forall>c\<in>set (childIds raw). c \<notin> set inherited_names))"

text \<open>The table with every child id that is not a key of the table removed from the
  child-id lists.\<close>

definition prune_raw :: "string list \<Rightarrow> RawNode \<Rightarrow> RawNode" where
  "prune_raw keys raw =
     (case raw of
        RawElem r \<Rightarrow>
          RawElem (r\<lparr>raw_children := map_option (filter (\<lambda>c. c \<in> set keys)) (raw_children r)\<rparr>)
      | _ \<Rightarrow> raw)"

definition drop_dangling :: "RawNode js_object \<Rightarrow> RawNode js_object" where
  "drop_dangling tbl = map (\<lambda>kv. (fst kv, prune_raw (map fst tbl) (snd kv))) tbl"

section \<open>JSON values\<close>

text \<open>
  A history record is persisted by the runtime's \<open>JSON.stringify\<close> and read back by
  \<open>JSON.parse\<close>. Both are modelled on values: \<open>history_to_json\<close> is the JSON value that
  \<open>stringify\<close> prints (properties in enumeration order, \<open>undefined\<close> properties left
  out), \<open>json_to_history\<close> reads the parsed value as a history record.
\<close>

datatype json =
    JNull
  | JBool bool
  | JNumber int
  | JString string
  | JArray "json list"
  | JObject "(string \<times> json) list"

definition optional_field :: "string \<Rightarrow> json option \<Rightarrow> (string \<times> json) list" where
  "optional_field k v = (case v of None \<Rightarrow> [] | Some j \<Rightarrow> [(k, j)])"

definition coordinates_to_json :: "CoordinateSet \<Rightarrow> json" where
  "coordinates_to_json c =
     JObject [(''top'', JNumber (c_top c)), (''left'', JNumber (c_left c)),
              (''bottom'', JNumber (c_bottom c)), (''right'', JNumber (c_right c)),
              (''width'', JNumber (c_width c)), (''height'', JNumber (c_height c))]"

definition viewport_to_json :: "ViewportInfo \<Rightarrow> json" where
  "viewport_to_json v =
     JObject [(''width'', JNumber (vp_width v)), (''height'', JNumber (vp_height v))]"

definition history_to_json :: "DOMHistoryElement \<Rightarrow> json" where
  "history_to_json h =
     JObject
       ([(''tagName'', JString (h_tagName h)),
         (''xpath'', JString (h_xpath h)),
         (''highlightIndex'', (case h_highlightIndex h of None \<Rightarrow> JNull | Some i \<Rightarrow> JNumber i)),
         (''entireParentBranchPath'', JArray (map JString (entireParentBranchPath h))),
         (''attributes'', JObject (map (\<lambda>kv. (fst kv, JString (snd kv))) (object_entries (h_attributes h)))),
         (''shadowRoot'', JBool (h_shadowRoot h))]
        @ optional_field ''cssSelector'' (map_option JString (cssSelector h))
        @ optional_field ''pageCoordinates'' (map_option coordinates_to_json (h_pageCoordinates h))
        @ optional_field ''viewportCoordinates'' (map_option coordinates_to_json (h_viewportCoordinates h))
        @ optional_field ''viewportInfo'' (map_option viewport_to_json (h_viewportInfo h)))"

fun json_string :: "json \<Rightarrow> string option" where
  "json_string (JString s) = Some s"
| "json_string _ = None"

fun json_number :: "json \<Rightarrow> int option" where
  "json_number (JNumber i) = Some i"
| "json_number _ = None"

fun json_bool :: "json \<Rightarrow> bool option" where
  "json_bool (JBool b) = Some b"
| "json_bool _ = None"

fun all_some :: "'a option list \<Rightarrow> 'a list option" where
  "all_some [] = Some []"
| "all_some (None # xs) = None"
| "all_some (Some x # xs) = map_option ((#) x) (all_some xs)"

fun json_strings :: "json \<Rightarrow> string list option" where
  "json_strings (JArray js) = all_some (map json_string js)"
| "json_strings _ = None"

fun json_string_object :: "json \<Rightarrow> string js_object option" where
  "json_string_object (JObject fs) =
     all_some (map (\<lambda>kv. map_option (Pair (fst kv)) (json_string (snd kv))) fs)"
| "json_string_object _ = None"

fun json_coordinates :: "json \<Rightarrow> CoordinateSet option" where
  "json_coordinates (JObject fs) =
     (case all_some (map (\<lambda>k. Option.bind (map_of fs k) json_number)
                      [''top'', ''left'', ''bottom'', ''right'', ''width'', ''height'']) of
        Some [t, l, b, r, w, h] \<Rightarrow>
          Some \<lparr>c_top = t, c_left = l, c_bottom = b, c_right = r, c_width = w, c_height = h\<rparr>
      | _ \<Rightarrow> None)"
| "json_coordinates _ = None"

fun json_viewport :: "json \<Rightarrow> ViewportInfo option" where
  "json_viewport (JObject fs) =
     (case all_some (map (\<lambda>k. Option.bind (map_of fs k) json_number) [''width'', ''height'']) of
        Some [w, h] \<Rightarrow> Some \<lparr>vp_width = w, vp_height = h\<rparr>
      | _ \<Rightarrow> None)"
| "json_viewport _ = None"

text \<open>An optional property: absent gives \<open>undefined\<close>; present, it has to read.\<close>

definition read_optional :: "(json \<Rightarrow> 'a option) \<Rightarrow> json option \<Rightarrow> 'a option option" where
  "read_optional rd v = (case v of None \<Rightarrow> Some None | Some j \<Rightarrow> map_option Some (rd j))"

fun json_to_history :: "json \<Rightarrow> DOMHistoryElement option" where
  "json_to_history (JObject fs) =
     (case (Option.bind (map_of fs ''tagName'') json_string,
            Option.bind (map_of fs ''xpath'') json_string,
            map_of fs ''highlightIndex'',
            Option.bind (map_of fs ''entireParentBranchPath'') json_strings,
            Option.bind (map_of fs ''attributes'') json_string_object,
            Option.bind (map_of fs ''shadowRoot'') json_bool,
            read_optional json_string (map_of fs ''cssSelector''),
            read_optional json_coordinates (map_of fs ''pageCoordinates''),
            read_optional json_coordinates (map_of fs ''viewportCoordinates''),
            read_optional json_viewport (map_of fs ''viewportInfo'')) of
        (Some tag, Some xp, Some hl, Some path, Some attrs, Some sr,
         Some css, Some pc, Some vc, Some vi) \<Rightarrow>
          (if hl = JNull \<or> json_number hl \<noteq> None
           then Some \<lparr>h_tagName = tag, h_xpath = xp, h_highlightIndex = json_number hl,
                      entireParentBranchPath = path, h_attributes = attrs, h_shadowRoot = sr,
                      cssSelector = css, h_pageCoordinates = pc, h_viewportCoordinates = vc,
                      h_viewportInfo = vi\<rparr>
           else None)
      | _ \<Rightarrow> None)"
| "json_to_history _ = None"

section \<open>The invariant of the construction loop\<close>

text \<open>
  \<open>linked seen s\<close> relates the state of the loop to the entries processed so far, as
  long as no child id has been found through the prototype chain: node map entries are
  references into the store and distinct ids have distinct nodes; a child has a smaller
  reference than the node that holds it, points back to it, and is there because a
  processed record lists its id; a parent has a larger reference and holds the node
  among its children.
\<close>

definition linked :: "(string \<times> RawNode) list \<Rightarrow> cstate \<Rightarrow> bool" where
  "linked seen s =
     ((\<forall>k c. nodeMap s k = Some c \<longrightarrow> c < length (heap_of s))
    \<and> (\<forall>k k' c. nodeMap s k = Some c \<longrightarrow> nodeMap s k' = Some c \<longrightarrow> k = k')
    \<and> (\<forall>a<length (heap_of s). \<forall>c\<in>set (children_of (heap_of s ! a)).
          c < a \<and> parent_of (heap_of s ! c) = Some a
          \<and> (\<exists>k raw kc. (k, raw) \<in> set seen \<and> nodeMap s k = Some a
                \<and> nodeMap s kc = Some c \<and> kc \<in> set (childIds raw)))
    \<and> (\<forall>c<length (heap_of s). \<forall>p. parent_of (heap_of s ! c) = Some p \<longrightarrow>
          c < p \<and> p < length (heap_of s) \<and> c \<in> set (children_of (heap_of s ! p))))"

section \<open>Walks and traversals on a store\<close>


lemma lookup_valid: "a < length st \<Longrightarrow> lookup st a = Some (st ! a)"
  by (simp add: lookup_def)

lemma lookup_invalid: "\<not> a < length st \<Longrightarrow> lookup st a = None"
  by (simp add: lookup_def)

lemma lookup_SomeD: "lookup st a = Some nd \<Longrightarrow> a < length st \<and> nd = st ! a"
  by (simp add: lookup_def split: if_splits)

lemma parents_aboveD:
  "parents_above st \<Longrightarrow> a < length st \<Longrightarrow> parent_of (st ! a) = Some p \<Longrightarrow> a < p \<and> p < length st"
proof -
  assume pa: "parents_above st" and a: "a < length st" and p: "parent_of (st ! a) = Some p"
  from a have "a \<in> set [0..<length st]" by simp
  with pa have "case parent_of (st ! a) of None \<Rightarrow> True | Some p \<Rightarrow> a < p \<and> p < length st"
    unfolding parents_above_def by (rule bspec)
  then show ?thesis using p by simp
qed

lemma children_belowD:
  "children_below st \<Longrightarrow> a < length st \<Longrightarrow> c \<in> set (children_of (st ! a)) \<Longrightarrow> c < a"
proof -
  assume cb: "children_below st" and a: "a < length st"
    and c: "c \<in> set (children_of (st ! a))"
  from a have "a \<in> set [0..<length st]" by simp
  with cb have "\<forall>c\<in>set (children_of (st ! a)). c < a"
    unfolding children_below_def by (rule bspec)
  then show ?thesis using c by (rule bspec)
qed

lemma chain_up_nonempty: "chain_up n st a \<noteq> []"
  by (cases n) (auto split: option.splits)

lemma parent_loop_total:
  assumes "parents_above st"
  shows "a < length st \<Longrightarrow> length st \<le> n + a \<Longrightarrow> \<exists>ps. parent_loop n st a acc = Inr (acc @ ps)"
proof (induction n arbitrary: a acc)
  case 0
  then show ?case by simp
next
  case (Suc n)
  show ?case
  proof (cases "parent_of (st ! a)")
    case None
    then show ?thesis using Suc.prems by (simp add: lookup_valid)
  next
    case (Some p)
    with assms Suc.prems have "a < p" "p < length st"
      using parents_aboveD by blast+
    then obtain ps where "parent_loop n st p (acc @ [a]) = Inr ((acc @ [a]) @ ps)"
      using Suc.IH[of p "acc @ [a]"] Suc.prems by auto
    then show ?thesis using Some Suc.prems by (simp add: lookup_valid)
  qed
qed

lemma parent_loop_chain:
  "parent_loop n st a acc = Inr ps \<Longrightarrow> ps = acc @ butlast (chain_up n st a)"
proof (induction n arbitrary: a acc)
  case 0
  then show ?case by simp
next
  case (Suc n)
  show ?case
  proof (cases "lookup st a")
    case None
    then show ?thesis using Suc.prems by simp
  next
    case (Some nd)
    show ?thesis
    proof (cases "parent_of nd")
      case None
      then show ?thesis using Suc.prems Some by simp
    next
      case (Some p)
      with Suc.prems \<open>lookup st a = Some nd\<close>
      have "parent_loop n st p (acc @ [a]) = Inr ps" by simp
      then have "ps = (acc @ [a]) @ butlast (chain_up n st p)" by (rule Suc.IH)
      then show ?thesis using Some \<open>lookup st a = Some nd\<close>
        by (simp add: chain_up_nonempty)
    qed
  qed
qed

lemma chain_up_last_root:
  assumes "parents_above st"
  shows "a < length st \<Longrightarrow> length st \<le> n + a \<Longrightarrow>
         last (chain_up n st a) < length st \<and> parent_of (st ! last (chain_up n st a)) = None"
proof (induction n arbitrary: a)
  case 0
  then show ?case by simp
next
  case (Suc n)
  show ?case
  proof (cases "parent_of (st ! a)")
    case None
    then show ?thesis using Suc.prems by (simp add: lookup_valid)
  next
    case (Some p)
    with assms Suc.prems have "a < p" "p < length st"
      using parents_aboveD by blast+
    then show ?thesis using Suc.IH[of p] Suc.prems Some
      by (simp add: lookup_valid chain_up_nonempty)
  qed
qed

lemma rev_butlast_tl: "rev (butlast xs) = tl (rev xs)"
  by (cases xs rule: rev_cases) simp_all

lemma branch_path_total:
  assumes "parents_above st" "a < length st" "length st \<le> fuel"
  shows "priv_getParentBranchPath fuel st a =
           Inr (map (tag_at st) (tl (rev (chain_up fuel st a))))"
proof -
  obtain ps where ps: "parent_loop fuel st a [] = Inr ps"
    using parent_loop_total[OF assms(1,2), of fuel "[]"] assms(3) by auto
  from parent_loop_chain[OF this] have "ps = butlast (chain_up fuel st a)"
    by simp
  then have "rev ps = tl (rev (chain_up fuel st a))"
    by (simp add: rev_butlast_tl)
  then show ?thesis using ps by (simp add: priv_getParentBranchPath_def)
qed


lemma hash_total:
  assumes "parents_above st" "a < length st" "length st \<le> fuel" "st ! a = Element e"
  shows "priv_hashDomElement fuel H st a =
           Inr \<lparr>branchPathHash = priv_parentBranchPathHash H (map (tag_at st) (tl (rev (chain_up fuel st a)))),
                attributesHash = priv_attributesHash H (attributes e),
                xpathHash = priv_xpathHash H (xpath e)\<rparr>"
  using assms by (simp add: priv_hashDomElement_def branch_path_total lookup_valid)

lemma is_element_at_valid: "is_element_at st a \<Longrightarrow> a < length st \<and> (\<exists>e. st ! a = Element e)"
  by (cases "st ! a") (auto simp: is_element_at_def lookup_def split: if_splits)

lemma is_element_at_Element: "a < length st \<Longrightarrow> st ! a = Element e \<Longrightarrow> is_element_at st a"
  by (simp add: is_element_at_def lookup_def)

lemma is_element_at_Text: "a < length st \<Longrightarrow> st ! a = Text t \<Longrightarrow> \<not> is_element_at st a"
  by (simp add: is_element_at_def lookup_def)

lemma highlighted_Element:
  "a < length st \<Longrightarrow> st ! a = Element e \<Longrightarrow> highlighted st a = (highlightIndex e \<noteq> None)"
  by (simp add: highlighted_def lookup_def)


lemma collect_children_spec:
  assumes "\<forall>c\<in>set cs. c < length st"
      and "\<forall>c\<in>set cs. is_element_at st c \<longrightarrow> rec c = Inr (f c)"
  shows "collect_children rec st cs acc =
           Inr (acc @ concat (map (\<lambda>c. (if highlighted st c then [c] else []) @ f c)
                               (filter (is_element_at st) cs)))"
  using assms
proof (induction cs arbitrary: acc)
  case Nil
  then show ?case by simp
next
  case (Cons c cs)
  have c: "c < length st" using Cons.prems by simp
  have IH: "\<And>acc. collect_children rec st cs acc =
           Inr (acc @ concat (map (\<lambda>c. (if highlighted st c then [c] else []) @ f c)
                               (filter (is_element_at st) cs)))"
    using Cons.IH Cons.prems by simp
  show ?case
  proof (cases "st ! c")
    case (Text t)
    then show ?thesis using c IH by (simp add: lookup_valid is_element_at_Text)
  next
    case (Element e)
    then have el: "is_element_at st c" using c by (simp add: is_element_at_Element)
    then have "rec c = Inr (f c)" using Cons.prems by simp
    then show ?thesis using c IH Element el
      by (simp add: lookup_valid highlighted_Element)
  qed
qed

lemma clickable_preorder:
  assumes "children_below st"
  shows "a < length st \<Longrightarrow> is_element_at st a \<Longrightarrow> a < n \<Longrightarrow>
         getClickableElements n st a = Inr (filter (highlighted st) (tl (preorder n st a)))"
proof (induction n arbitrary: a)
  case 0
  then show ?case by simp
next
  case (Suc n)
  obtain e where e: "st ! a = Element e" using is_element_at_valid[OF Suc.prems(2)] by blast
  have below: "\<forall>c\<in>set (children e). c < a"
    using children_belowD[OF assms Suc.prems(1)] e by simp
  then have valid: "\<forall>c\<in>set (children e). c < length st" using Suc.prems(1) by auto
  have rec: "\<forall>c\<in>set (children e). is_element_at st c \<longrightarrow>
     getClickableElements n st c = Inr (filter (highlighted st) (tl (preorder n st c)))"
    using Suc.IH below valid Suc.prems(3) by auto
  have pre: "\<And>c. c \<in> set (children e) \<Longrightarrow>
     filter (highlighted st) (preorder n st c) =
       (if highlighted st c then [c] else []) @ filter (highlighted st) (tl (preorder n st c))"
  proof -
    fix c assume "c \<in> set (children e)"
    then have "c < n" using below Suc.prems(3) by auto
    then obtain m where "n = Suc m" by (cases n) auto
    then show "filter (highlighted st) (preorder n st c) =
       (if highlighted st c then [c] else []) @ filter (highlighted st) (tl (preorder n st c))"
      by simp
  qed
  have B: "map (\<lambda>c. filter (highlighted st) (preorder n st c)) (filter (is_element_at st) (children e))
        = map (\<lambda>c. (if highlighted st c then [c] else []) @ filter (highlighted st) (tl (preorder n st c)))
              (filter (is_element_at st) (children e))"
    by (rule map_cong) (simp_all add: pre)
  have A: "filter (highlighted st) (concat (map (preorder n st) (filter (is_element_at st) (children e))))
        = concat (map (\<lambda>c. filter (highlighted st) (preorder n st c)) (filter (is_element_at st) (children e)))"
    by (simp add: filter_concat comp_def)
  have flt: "filter (highlighted st) (concat (map (preorder n st) (filter (is_element_at st) (children e))))
        = concat (map (\<lambda>c. (if highlighted st c then [c] else []) @ filter (highlighted st) (tl (preorder n st c)))
                      (filter (is_element_at st) (children e)))"
    by (simp only: A B)
  have "getClickableElements (Suc n) st a =
          collect_children (getClickableElements n st) st (children e) []"
    using e Suc.prems(1) by (simp add: lookup_valid)
  also have "\<dots> = Inr ([] @ concat (map (\<lambda>c. (if highlighted st c then [c] else []) @ filter (highlighted st) (tl (preorder n st c)))
                      (filter (is_element_at st) (children e))))"
    by (rule collect_children_spec[OF valid rec])
  also have "\<dots> = Inr (filter (highlighted st) (tl (preorder (Suc n) st a)))"
    using flt e Suc.prems(1) by (simp add: children_at_def lookup_valid)
  finally show ?case .
qed


lemma find_append_case:
  "List.find P (xs @ ys) = (case List.find P xs of Some x \<Rightarrow> Some x | None \<Rightarrow> List.find P ys)"
  by (induction xs) auto

lemma node_matches_total:
  assumes "parents_above st" "a < length st" "length st \<le> fuel" "st ! a = Element e"
  shows "node_matches fuel H st hh a (highlightIndex e) = Inr (is_match fuel H st hh a)"
proof (cases "highlightIndex e")
  case None
  then show ?thesis using assms
    by (simp add: node_matches_def is_match_def highlighted_Element)
next
  case (Some i)
  then show ?thesis using assms hash_total[OF assms, of H]
    by (simp add: node_matches_def is_match_def highlighted_Element)
qed

lemma process_children_spec:
  assumes "\<forall>c\<in>set cs. c < length st"
      and "\<forall>c\<in>set cs. is_element_at st c \<longrightarrow> rec c = Inr (List.find P (g c))"
  shows "process_children rec st cs =
           Inr (List.find P (concat (map g (filter (is_element_at st) cs))))"
  using assms
proof (induction cs)
  case Nil
  then show ?case by simp
next
  case (Cons c cs)
  have c: "c < length st" using Cons.prems by simp
  have IH: "process_children rec st cs =
           Inr (List.find P (concat (map g (filter (is_element_at st) cs))))"
    using Cons.IH Cons.prems by simp
  show ?case
  proof (cases "st ! c")
    case (Text t)
    then show ?thesis using c IH by (simp add: lookup_valid is_element_at_Text)
  next
    case (Element e)
    then have el: "is_element_at st c" using c by (simp add: is_element_at_Element)
    then have "rec c = Inr (List.find P (g c))" using Cons.prems by simp
    then show ?thesis using c IH Element el
      by (cases "List.find P (g c)") (simp_all add: lookup_valid find_append_case)
  qed
qed

lemma processNode_preorder:
  assumes "children_below st" "parents_above st" "length st \<le> fuel"
  shows "a < length st \<Longrightarrow> is_element_at st a \<Longrightarrow> a < n \<Longrightarrow>
         processNode n fuel H st hh a = Inr (List.find (is_match fuel H st hh) (preorder n st a))"
proof (induction n arbitrary: a)
  case 0
  then show ?case by simp
next
  case (Suc n)
  obtain e where e: "st ! a = Element e" using is_element_at_valid[OF Suc.prems(2)] by blast
  have below: "\<forall>c\<in>set (children e). c < a"
    using children_belowD[OF assms(1) Suc.prems(1)] e by simp
  then have valid: "\<forall>c\<in>set (children e). c < length st" using Suc.prems(1) by auto
  have rec: "\<forall>c\<in>set (children e). is_element_at st c \<longrightarrow>
     processNode n fuel H st hh c = Inr (List.find (is_match fuel H st hh) (preorder n st c))"
    using Suc.IH below valid Suc.prems(3) by auto
  have nm: "node_matches fuel H st hh a (highlightIndex e) = Inr (is_match fuel H st hh a)"
    by (rule node_matches_total[OF assms(2) Suc.prems(1) assms(3) e])
  have pc: "process_children (processNode n fuel H st hh) st (children e) =
        Inr (List.find (is_match fuel H st hh)
               (concat (map (preorder n st) (filter (is_element_at st) (children e)))))"
    by (rule process_children_spec[OF valid rec])
  show ?case
    using e Suc.prems(1) nm pc
    by (cases "is_match fuel H st hh a") (simp_all add: lookup_valid children_at_def)
qed


lemma collect_children_mono:
  assumes "collect_children rec st cs acc = Inr ys"
      and "\<And>c zs. c \<in> set cs \<Longrightarrow> rec c = Inr zs \<Longrightarrow> rec' c = Inr zs"
  shows "collect_children rec' st cs acc = Inr ys"
  using assms
proof (induction cs arbitrary: acc)
  case Nil
  then show ?case by simp
next
  case (Cons c cs)
  show ?case
  proof (cases "lookup st c")
    case None
    then show ?thesis using Cons.prems by simp
  next
    case (Some nd)
    show ?thesis
    proof (cases nd)
      case (Text t)
      then show ?thesis using Some Cons by simp
    next
      case (Element e)
      show ?thesis
      proof (cases "rec c")
        case (Inl f)
        then show ?thesis using Some Element Cons.prems by simp
      next
        case (Inr sub)
        then have "rec' c = Inr sub" using Cons.prems(2) by simp
        then show ?thesis using Some Element Inr Cons by (simp add: Let_def)
      qed
    qed
  qed
qed

lemma getClickableElements_mono:
  "getClickableElements m st a = Inr ys \<Longrightarrow> getClickableElements (m + d) st a = Inr ys"
proof (induction m arbitrary: a ys)
  case 0
  then show ?case by simp
next
  case (Suc m)
  show ?case
  proof (cases "lookup st a")
    case None
    then show ?thesis using Suc.prems by simp
  next
    case (Some nd)
    show ?thesis
    proof (cases nd)
      case (Text t)
      then show ?thesis using Some Suc.prems by simp
    next
      case (Element e)
      then have "collect_children (getClickableElements m st) st (children e) [] = Inr ys"
        using Some Suc.prems by simp
      then have "collect_children (getClickableElements (m + d) st) st (children e) [] = Inr ys"
        by (rule collect_children_mono) (rule Suc.IH)
      then show ?thesis using Some Element by simp
    qed
  qed
qed

lemma collect_children_mem:
  assumes "collect_children rec st cs acc = Inr xs" "x \<in> set xs"
  shows "x \<in> set acc \<or> (\<exists>c\<in>set cs. \<exists>sub. is_element_at st c \<and> rec c = Inr sub \<and> (x = c \<or> x \<in> set sub))"
  using assms
proof (induction cs arbitrary: acc)
  case Nil
  then show ?case by simp
next
  case (Cons c cs)
  show ?case
  proof (cases "lookup st c")
    case None
    then show ?thesis using Cons.prems by simp
  next
    case (Some nd)
    show ?thesis
    proof (cases nd)
      case (Text t)
      then have "collect_children rec st cs acc = Inr xs" using Some Cons.prems by simp
      from Cons.IH[OF this Cons.prems(2)] show ?thesis by auto
    next
      case (Element e)
      have el: "is_element_at st c" using Some Element by (simp add: is_element_at_def)
      show ?thesis
      proof (cases "rec c")
        case (Inl f)
        then show ?thesis using Some Element Cons.prems by simp
      next
        case (Inr sub)
        then have "collect_children rec st cs
            ((if highlightIndex e \<noteq> None then acc @ [c] else acc) @ sub) = Inr xs"
          using Some Element Cons.prems by (simp add: Let_def)
        from Cons.IH[OF this Cons.prems(2)] show ?thesis using Inr el
          by (auto split: if_splits)
      qed
    qed
  qed
qed

lemma getClickableElements_descend:
  "getClickableElements n st a = Inr xs \<Longrightarrow> x \<in> set xs \<Longrightarrow>
     \<exists>m<n. \<exists>ys. getClickableElements m st x = Inr ys"
proof (induction n arbitrary: a xs x)
  case 0
  then show ?case by simp
next
  case (Suc n)
  show ?case
  proof (cases "lookup st a")
    case None
    then show ?thesis using Suc.prems by simp
  next
    case (Some nd)
    show ?thesis
    proof (cases nd)
      case (Text t)
      then show ?thesis using Some Suc.prems by simp
    next
      case (Element e)
      then have "collect_children (getClickableElements n st) st (children e) [] = Inr xs"
        using Some Suc.prems by simp
      from collect_children_mem[OF this Suc.prems(2)]
      obtain c sub where cs: "getClickableElements n st c = Inr sub" "x = c \<or> x \<in> set sub"
        by auto
      show ?thesis
      proof (cases "x = c")
        case True
        then show ?thesis using cs(1) by blast
      next
        case False
        then have "x \<in> set sub" using cs(2) by simp
        from Suc.IH[OF cs(1) this] obtain m ys where "m < n" "getClickableElements m st x = Inr ys"
          by blast
        then show ?thesis using less_Suc_eq by blast
      qed
    qed
  qed
qed

lemma getClickableElements_excludes_root:
  "getClickableElements n st r = Inr xs \<Longrightarrow> r \<notin> set xs"
proof (induction n arbitrary: xs rule: less_induct)
  case (less n)
  show ?case
  proof
    assume "r \<in> set xs"
    from getClickableElements_descend[OF less.prems this]
    obtain m ys where m: "m < n" "getClickableElements m st r = Inr ys" by blast
    then have "getClickableElements (m + (n - m)) st r = Inr ys"
      by (intro getClickableElements_mono)
    then have "ys = xs" using m(1) less.prems by simp
    then have "r \<notin> set xs" using less.IH[OF m(1)] m(2) by simp
    then show False using \<open>r \<in> set xs\<close> by simp
  qed
qed



lemma preorder_enough:
  assumes "children_below st"
  shows "a < n \<Longrightarrow> a < m \<Longrightarrow> preorder n st a = preorder m st a"
proof (induction n arbitrary: a m)
  case 0
  then show ?case by simp
next
  case (Suc n)
  then obtain m' where m: "m = Suc m'" by (cases m) auto
  have eq: "map (preorder n st) (filter (is_element_at st) (children_at st a))
      = map (preorder m' st) (filter (is_element_at st) (children_at st a))"
  proof (rule map_cong[OF refl])
    fix c assume "c \<in> set (filter (is_element_at st) (children_at st a))"
    then have c: "c \<in> set (children_at st a)" by simp
    then have "a < length st" by (auto simp: children_at_def lookup_def split: if_splits)
    then have "c < a" using c children_belowD[OF assms] by (simp add: children_at_def lookup_valid)
    then show "preorder n st c = preorder m' st c" using Suc m by (intro Suc.IH) auto
  qed
  show ?case unfolding m preorder.simps eq ..
qed

lemma highlighted_valid: "highlighted st x \<Longrightarrow> x < length st \<and> (\<exists>e. st ! x = Element e)"
  by (cases "st ! x") (auto simp: highlighted_def lookup_def split: if_splits)

lemma hashDomElement_total:
  assumes "parents_above st" "a < length st" "length st \<le> fuel" "st ! a = Element e"
  shows "hashDomElement fuel H st a = Inr (H (composite_string fuel H st a))"
  using hash_total[OF assms, of H] branch_path_total[OF assms(1,2,3)] assms(2,4)
  by (simp add: hashDomElement_def composite_string_def priv_hashString_def lookup_valid)

lemma map_results_total:
  "\<forall>x\<in>set xs. f x = Inr (g x) \<Longrightarrow> map_results f xs = Inr (map g xs)"
  by (induction xs) simp_all


section \<open>Evaluating the scenario stores\<close>

lemmas scenario_eval = lookup_def element_node_def button_record_def body_record_def
  tag_at_def is_element_at_def children_at_def highlighted_def

lemmas hash_eval = priv_hashDomElement_def priv_getParentBranchPath_def
  priv_hashDomHistoryElement_def priv_parentBranchPathHash_def priv_attributesHash_def
  priv_xpathHash_def priv_hashString_def hashes_equal_def node_matches_def is_match_def

lemma bottom_up_shape:
  "children_below bottom_up_heap" "parents_above bottom_up_heap"
  "1 < length bottom_up_heap" "is_element_at bottom_up_heap 1" "length bottom_up_heap \<le> 2"
  by (simp_all add: children_below_def parents_above_def bottom_up_heap_def scenario_eval)



lemmas entries_eval = object_entries_def is_index_entry_def index_of_entry_def array_index_def
  is_digit_def decimal_value_def

lemmas build_eval = process_entry_def init_cstate_def register_highlight_def store_node_def
  connect_child_def read_nodeMap_def inherited_names_def inherited_ref_def or_false_def
  raw_element_def element_node_def

lemma scenario_entries: "object_entries scenario_table = scenario_table"
  by (simp add: scenario_table_def entries_eval)

lemma bottom_up_entries: "object_entries bottom_up_table = bottom_up_table"
  by (simp add: bottom_up_table_def entries_eval)

lemma scenario_build:
  "build_nodes scenario_table =
     \<lparr>heap_of = scenario_heap, nodeMap = [''0'' \<mapsto> 0, ''1'' \<mapsto> 1], selectorMap = [0 \<mapsto> 1],
      inheritedParent = Map.empty, foreignBase = 2, prototypeReplaced = False\<rparr>"
  unfolding build_nodes_def scenario_entries
  by (simp add: scenario_table_def scenario_heap_def build_eval)

lemma bottom_up_build:
  "build_nodes bottom_up_table =
     \<lparr>heap_of = bottom_up_heap, nodeMap = [''0'' \<mapsto> 0, ''1'' \<mapsto> 1], selectorMap = [0 \<mapsto> 0],
      inheritedParent = Map.empty, foreignBase = 2, prototypeReplaced = False\<rparr>"
  unfolding build_nodes_def bottom_up_entries
  by (simp add: bottom_up_table_def bottom_up_heap_def build_eval)

lemma scenario_construct:
  "constructDOMTree scenario_table ''0'' = Inr (0, [0 \<mapsto> 1], scenario_heap)"
  by (simp add: constructDOMTree_def read_nodeMap_def scenario_build)
     (simp add: scenario_heap_def scenario_eval)

lemma bottom_up_construct:
  "constructDOMTree bottom_up_table ''1'' = Inr (1, [0 \<mapsto> 0], bottom_up_heap)"
  by (simp add: constructDOMTree_def read_nodeMap_def bottom_up_build)
     (simp add: bottom_up_heap_def scenario_eval)


lemma bottom_up_collect: "getClickableElements 2 bottom_up_heap 1 = Inr [0]"
  by (simp add: numeral_2_eq_2 bottom_up_heap_def scenario_eval)


section \<open>Attribute strings\<close>


lemma key_split:
  "CHR ''='' \<notin> set k \<Longrightarrow> CHR ''='' \<notin> set k' \<Longrightarrow> k @ CHR ''='' # s = k' @ CHR ''='' # s'
     \<Longrightarrow> k = k' \<and> s = s'"
proof (induction k arbitrary: k')
  case Nil
  then show ?case by (cases k') auto
next
  case (Cons c k)
  then show ?case by (cases k') auto
qed

lemma same_key_same_pair:
  "distinct (map fst xs) \<Longrightarrow> p \<in> set xs \<Longrightarrow> q \<in> set xs \<Longrightarrow> fst p = fst q \<Longrightarrow> p = q"
  by (metis eq_key_imp_eq_value prod.collapse)

lemma concat_pairs_inj:
  assumes "distinct (map fst xs)" and "distinct (map fst ys)" and "set xs = set ys"
      and "\<forall>kv\<in>set xs. CHR ''='' \<notin> set (fst kv)"
      and "concat (map (\<lambda>kv. fst kv @ ''='' @ snd kv) xs) = concat (map (\<lambda>kv. fst kv @ ''='' @ snd kv) ys)"
  shows "xs = ys"
  using assms
proof (induction xs arbitrary: ys)
  case Nil
  then show ?case by simp
next
  case (Cons p xs)
  then obtain q ys' where ys: "ys = q # ys'" by (cases ys) auto
  have qin: "q \<in> set (p # xs)" using Cons.prems(3) ys by auto
  have "fst p @ CHR ''='' # (snd p @ concat (map (\<lambda>kv. fst kv @ ''='' @ snd kv) xs))
      = fst q @ CHR ''='' # (snd q @ concat (map (\<lambda>kv. fst kv @ ''='' @ snd kv) ys'))"
    using Cons.prems(5) ys by simp
  moreover have "CHR ''='' \<notin> set (fst p)" "CHR ''='' \<notin> set (fst q)"
    using Cons.prems(4) qin by auto
  ultimately have k: "fst p = fst q"
    and r: "snd p @ concat (map (\<lambda>kv. fst kv @ ''='' @ snd kv) xs)
          = snd q @ concat (map (\<lambda>kv. fst kv @ ''='' @ snd kv) ys')"
    using key_split by blast+
  have pq: "p = q"
    by (rule same_key_same_pair[OF Cons.prems(1) _ qin k]) simp
  have "p \<notin> set xs" "q \<notin> set ys'"
    using Cons.prems(1,2) ys by (auto simp: image_iff)
  then have sets: "set xs = set ys'" using Cons.prems(3) ys pq by auto
  have "xs = ys'"
  proof (rule Cons.IH)
    show "distinct (map fst xs)" using Cons.prems(1) by simp
    show "distinct (map fst ys')" using Cons.prems(2) ys by simp
    show "set xs = set ys'" by (rule sets)
    show "\<forall>kv\<in>set xs. CHR ''='' \<notin> set (fst kv)" using Cons.prems(4) by simp
    show "concat (map (\<lambda>kv. fst kv @ ''='' @ snd kv) xs)
        = concat (map (\<lambda>kv. fst kv @ ''='' @ snd kv) ys')"
      using r pq by simp
  qed
  then show ?case using ys pq by simp
qed

lemma set_object_entries: "set (object_entries obj) = set obj"
  by (auto simp: object_entries_def)

lemma distinct_object_entries:
  "distinct (map fst obj) \<Longrightarrow> distinct (map fst (object_entries obj))"
  by (auto simp: object_entries_def distinct_map inj_on_def)

lemma attrs_entries:
  "object_entries attrs_id_class = attrs_id_class" "object_entries attrs_class_id = attrs_class_id"
  "object_entries attrs_forward = attrs_forward" "object_entries attrs_backward = attrs_backward"
  by (simp_all add: attrs_id_class_def attrs_class_id_def attrs_forward_def attrs_backward_def
        entries_eval)


section \<open>JSON round trip\<close>


lemma filter_sort_key_all:
  "filter P (sort_key f (filter P xs)) = sort_key f (filter P xs)"
  by (rule filter_True) simp

lemma object_entries_idem: "object_entries (object_entries obj) = object_entries obj"
proof -
  let ?A = "sort_key index_of_entry (filter is_index_entry obj)"
  let ?B = "filter (\<lambda>kv. \<not> is_index_entry kv) obj"
  have a1: "filter is_index_entry ?A = ?A" by (rule filter_True) simp
  have a2: "filter (\<lambda>kv. \<not> is_index_entry kv) ?A = []" by (simp add: filter_empty_conv)
  have b1: "filter is_index_entry ?B = []" by (simp add: filter_empty_conv)
  have b2: "filter (\<lambda>kv. \<not> is_index_entry kv) ?B = ?B" by simp
  have s: "sort_key index_of_entry ?A = ?A"
    by (rule sort_key_id_if_sorted) (rule sorted_sort_key)
  show ?thesis
    unfolding object_entries_def filter_append a1 a2 b1 b2 by (simp add: s)
qed

lemma attributesString_entries: "attributesString (object_entries obj) = attributesString obj"
  by (simp add: attributesString_def object_entries_idem)

lemma all_some_map_Some: "all_some (map (\<lambda>x. Some (f x)) xs) = Some (map f xs)"
  by (induction xs) simp_all

lemma json_strings_roundtrip: "json_strings (JArray (map JString xs)) = Some xs"
  using all_some_map_Some[of id xs] by (simp add: comp_def)

lemma json_string_object_roundtrip:
  "json_string_object (JObject (map (\<lambda>kv. (fst kv, JString (snd kv))) xs)) = Some xs"
  using all_some_map_Some[of id xs] by (simp add: comp_def)

lemma json_coordinates_roundtrip: "json_coordinates (coordinates_to_json c) = Some c"
  by (simp add: coordinates_to_json_def)

lemma json_viewport_roundtrip: "json_viewport (viewport_to_json v) = Some v"
  by (simp add: viewport_to_json_def)

lemma json_roundtrip:
  "json_to_history (history_to_json h) = Some (h\<lparr>h_attributes := object_entries (h_attributes h)\<rparr>)"
  by (cases "cssSelector h"; cases "h_pageCoordinates h"; cases "h_viewportCoordinates h";
      cases "h_viewportInfo h"; cases "h_highlightIndex h")
     (simp_all add: history_to_json_def optional_field_def read_optional_def
        json_strings_roundtrip json_string_object_roundtrip json_coordinates_roundtrip
        json_viewport_roundtrip del: json_strings.simps json_string_object.simps
        json_coordinates.simps json_viewport.simps)



section \<open>The construction loop\<close>


lemma is_element_set_parent: "is_element (set_parent p n) = is_element n"
  by (cases n) simp_all

lemma is_element_push_child: "is_element (push_child c n) = is_element n"
  by (cases n) simp_all

lemma children_set_parent: "children_of (set_parent p n) = children_of n"
  by (cases n) simp_all

lemma children_push_child: "is_element n \<Longrightarrow> children_of (push_child c n) = children_of n @ [c]"
  by (cases n) simp_all

lemma parent_set_parent: "parent_of (set_parent p n) = Some p"
  by (cases n) simp_all

lemma parent_push_child: "parent_of (push_child c n) = parent_of n"
  by (cases n) simp_all

lemmas node_update_simps = is_element_set_parent is_element_push_child children_set_parent
  children_push_child parent_set_parent parent_push_child

lemma nth_update_any: "xs[i := v] ! j = (if i = j \<and> i < length xs then v else xs ! j)"
  by (cases "i < length xs") (simp_all add: nth_list_update list_update_beyond)

lemma proto_inherited: "''__proto__'' \<in> set inherited_names"
  by (simp add: inherited_names_def)

lemma read_nodeMap_own: "nodeMap s name = Some c \<Longrightarrow> read_nodeMap s name = Some (StoredNode c)"
  by (simp add: read_nodeMap_def)

lemma read_nodeMap_unstored:
  "nodeMap s name = None \<Longrightarrow> inheritedParent s ''__proto__'' = None \<Longrightarrow>
     read_nodeMap s name
       = (if name \<in> set inherited_names then Some (InheritedObject name) else None)"
  by (simp add: read_nodeMap_def)

lemma connect_child_own:
  "nodeMap s cid = Some c \<Longrightarrow>
     connect_child a cid s =
       (let h1 = (heap_of s)[c := set_parent a (heap_of s ! c)];
            h2 = h1[a := push_child c (h1 ! a)]
        in s\<lparr>heap_of := h2\<rparr>)"
  by (simp add: connect_child_def read_nodeMap_own)

lemma connect_child_skip:
  "nodeMap s cid = None \<Longrightarrow> cid \<notin> set inherited_names \<Longrightarrow>
     inheritedParent s ''__proto__'' = None \<Longrightarrow> connect_child a cid s = s"
  by (simp add: connect_child_def read_nodeMap_unstored)

lemma connect_child_frame:
  "nodeMap (connect_child a cid s) = nodeMap s"
  "selectorMap (connect_child a cid s) = selectorMap s"
  "length (heap_of (connect_child a cid s)) = length (heap_of s)"
  "foreignBase (connect_child a cid s) = foreignBase s"
  "prototypeReplaced (connect_child a cid s) = prototypeReplaced s"
  by (simp_all add: connect_child_def Let_def split: option.splits target.splits)

lemma connect_child_untouched:
  "cid \<notin> set inherited_names \<Longrightarrow>
     inheritedParent (connect_child a cid s) = inheritedParent s"
  by (auto simp: connect_child_def read_nodeMap_def Let_def
        split: option.splits target.splits if_splits)

lemma connect_child_is_element:
  "x < length (heap_of s) \<Longrightarrow>
     is_element (heap_of (connect_child a cid s) ! x) = is_element (heap_of s ! x)"
  by (simp add: connect_child_def Let_def nth_update_any node_update_simps
        split: option.splits target.splits)

lemma connect_child_children:
  assumes "nodeMap s cid = Some c" and "a < length (heap_of s)" and "c < length (heap_of s)"
      and "is_element (heap_of s ! a)" and "x < length (heap_of s)"
  shows "children_of (heap_of (connect_child a cid s) ! x)
           = (if x = a then children_of (heap_of s ! a) @ [c] else children_of (heap_of s ! x))"
  using assms
  by (simp add: connect_child_own Let_def nth_list_update node_update_simps)

lemma connect_child_parent:
  assumes "nodeMap s cid = Some c" and "a < length (heap_of s)" and "c < length (heap_of s)"
      and "x < length (heap_of s)"
  shows "parent_of (heap_of (connect_child a cid s) ! x)
           = (if x = c then Some a else parent_of (heap_of s ! x))"
  using assms
  by (simp add: connect_child_own Let_def nth_list_update node_update_simps)

lemma fold_connect_frame:
  "nodeMap (fold (connect_child a) cs s) = nodeMap s"
  "selectorMap (fold (connect_child a) cs s) = selectorMap s"
  "length (heap_of (fold (connect_child a) cs s)) = length (heap_of s)"
  "foreignBase (fold (connect_child a) cs s) = foreignBase s"
  "prototypeReplaced (fold (connect_child a) cs s) = prototypeReplaced s"
  by (induction cs arbitrary: s) (simp_all add: connect_child_frame)

lemma fold_connect_untouched:
  "\<forall>c\<in>set cs. c \<notin> set inherited_names \<Longrightarrow>
     inheritedParent (fold (connect_child a) cs s) = inheritedParent s"
  by (induction cs arbitrary: s) (simp_all add: connect_child_untouched)

lemma fold_connect_is_element:
  "x < length (heap_of s) \<Longrightarrow>
     is_element (heap_of (fold (connect_child a) cs s) ! x) = is_element (heap_of s ! x)"
  by (induction cs arbitrary: s) (simp_all add: connect_child_frame connect_child_is_element)


lemma linkedI:
  assumes "\<And>k c. nodeMap s k = Some c \<Longrightarrow> c < length (heap_of s)"
      and "\<And>k k' c. nodeMap s k = Some c \<Longrightarrow> nodeMap s k' = Some c \<Longrightarrow> k = k'"
      and "\<And>a c. a < length (heap_of s) \<Longrightarrow> c \<in> set (children_of (heap_of s ! a)) \<Longrightarrow>
             c < a \<and> parent_of (heap_of s ! c) = Some a
             \<and> (\<exists>k raw kc. (k, raw) \<in> set seen \<and> nodeMap s k = Some a
                   \<and> nodeMap s kc = Some c \<and> kc \<in> set (childIds raw))"
      and "\<And>c p. c < length (heap_of s) \<Longrightarrow> parent_of (heap_of s ! c) = Some p \<Longrightarrow>
             c < p \<and> p < length (heap_of s) \<and> c \<in> set (children_of (heap_of s ! p))"
  shows "linked seen s"
  unfolding linked_def using assms by blast

lemma linked_bound: "linked seen s \<Longrightarrow> nodeMap s k = Some c \<Longrightarrow> c < length (heap_of s)"
proof -
  assume L: "linked seen s" and k: "nodeMap s k = Some c"
  from L have "\<forall>k c. nodeMap s k = Some c \<longrightarrow> c < length (heap_of s)"
    unfolding linked_def by (rule conjunct1)
  then show ?thesis using k by blast
qed

lemma linked_inj:
  "linked seen s \<Longrightarrow> nodeMap s k = Some c \<Longrightarrow> nodeMap s k' = Some c \<Longrightarrow> k = k'"
proof -
  assume L: "linked seen s" and k: "nodeMap s k = Some c" "nodeMap s k' = Some c"
  from L have "\<forall>k k' c. nodeMap s k = Some c \<longrightarrow> nodeMap s k' = Some c \<longrightarrow> k = k'"
    unfolding linked_def by (rule conjunct1[OF conjunct2])
  then show ?thesis using k by blast
qed

lemma linked_child:
  assumes "linked seen s" and "a < length (heap_of s)"
      and "c \<in> set (children_of (heap_of s ! a))"
  shows "c < a \<and> parent_of (heap_of s ! c) = Some a
     \<and> (\<exists>k raw kc. (k, raw) \<in> set seen \<and> nodeMap s k = Some a
           \<and> nodeMap s kc = Some c \<and> kc \<in> set (childIds raw))"
proof -
  have "\<forall>a<length (heap_of s). \<forall>c\<in>set (children_of (heap_of s ! a)).
          c < a \<and> parent_of (heap_of s ! c) = Some a
          \<and> (\<exists>k raw kc. (k, raw) \<in> set seen \<and> nodeMap s k = Some a
                \<and> nodeMap s kc = Some c \<and> kc \<in> set (childIds raw))"
    using assms(1) unfolding linked_def by (rule conjunct1[OF conjunct2[OF conjunct2]])
  then show ?thesis using assms(2,3) by blast
qed

lemma linked_parent:
  assumes "linked seen s" and "c < length (heap_of s)"
      and "parent_of (heap_of s ! c) = Some p"
  shows "c < p \<and> p < length (heap_of s) \<and> c \<in> set (children_of (heap_of s ! p))"
proof -
  have "\<forall>c<length (heap_of s). \<forall>p. parent_of (heap_of s ! c) = Some p \<longrightarrow>
          c < p \<and> p < length (heap_of s) \<and> c \<in> set (children_of (heap_of s ! p))"
    using assms(1) unfolding linked_def by (rule conjunct2[OF conjunct2[OF conjunct2]])
  then show ?thesis using assms(2,3) by blast
qed

lemma linked_init: "linked [] (init_cstate base)"
  by (simp add: linked_def init_cstate_def)

lemma linked_mono:
  assumes "linked seen s" and "set seen \<subseteq> set seen'"
  shows "linked seen' s"
proof (rule linkedI)
  fix k c assume "nodeMap s k = Some c"
  then show "c < length (heap_of s)" using linked_bound[OF assms(1)] by blast
next
  fix k k' c assume "nodeMap s k = Some c" "nodeMap s k' = Some c"
  then show "k = k'" using linked_inj[OF assms(1)] by blast
next
  fix a c assume "a < length (heap_of s)" "c \<in> set (children_of (heap_of s ! a))"
  from linked_child[OF assms(1) this] assms(2)
  show "c < a \<and> parent_of (heap_of s ! c) = Some a
             \<and> (\<exists>k raw kc. (k, raw) \<in> set seen' \<and> nodeMap s k = Some a
                   \<and> nodeMap s kc = Some c \<and> kc \<in> set (childIds raw))"
    by blast
next
  fix c p assume "c < length (heap_of s)" "parent_of (heap_of s ! c) = Some p"
  from linked_parent[OF assms(1) this]
  show "c < p \<and> p < length (heap_of s) \<and> c \<in> set (children_of (heap_of s ! p))" .
qed

lemma linked_selector: "linked seen (s\<lparr>selectorMap := m\<rparr>) = linked seen s"
  by (simp add: linked_def)

lemma linked_register: "linked seen (register_highlight a n s) = linked seen s"
  by (simp add: register_highlight_def linked_selector split: option.splits)

lemma linked_alloc:
  assumes "linked seen s" and "nodeMap s k = None"
      and "children_of n = []" and "parent_of n = None"
  shows "linked seen (s\<lparr>heap_of := heap_of s @ [n], nodeMap := (nodeMap s)(k \<mapsto> length (heap_of s))\<rparr>)"
    (is "linked seen ?s'")
proof (rule linkedI)
  fix k' c assume "nodeMap ?s' k' = Some c"
  then show "c < length (heap_of ?s')"
    using linked_bound[OF assms(1)] by (auto split: if_splits simp: less_Suc_eq)
next
  fix k1 k2 c assume a: "nodeMap ?s' k1 = Some c" "nodeMap ?s' k2 = Some c"
  show "k1 = k2"
  proof (cases "c = length (heap_of s)")
    case True
    then have "k1 = k" "k2 = k"
      using a linked_bound[OF assms(1)] by (auto split: if_splits)
    then show ?thesis by simp
  next
    case False
    then have "nodeMap s k1 = Some c" "nodeMap s k2 = Some c"
      using a by (auto split: if_splits)
    then show ?thesis using linked_inj[OF assms(1)] by blast
  qed
next
  fix a c assume a: "a < length (heap_of ?s')" and c: "c \<in> set (children_of (heap_of ?s' ! a))"
  have "a \<noteq> length (heap_of s)" using c assms(3) by (auto simp: nth_append)
  then have lt: "a < length (heap_of s)" using a by simp
  then have c': "c \<in> set (children_of (heap_of s ! a))" using c by (simp add: nth_append)
  from linked_child[OF assms(1) lt c']
  obtain k1 raw kc where ca: "c < a" and par: "parent_of (heap_of s ! c) = Some a"
    and prov: "(k1, raw) \<in> set seen" "nodeMap s k1 = Some a" "nodeMap s kc = Some c"
              "kc \<in> set (childIds raw)"
    by blast
  have "k1 \<noteq> k" "kc \<noteq> k" using prov assms(2) by auto
  then have "nodeMap ?s' k1 = Some a" "nodeMap ?s' kc = Some c" using prov by simp_all
  moreover have "parent_of (heap_of ?s' ! c) = Some a" using par ca lt by (simp add: nth_append)
  ultimately show "c < a \<and> parent_of (heap_of ?s' ! c) = Some a
             \<and> (\<exists>k raw kc. (k, raw) \<in> set seen \<and> nodeMap ?s' k = Some a
                   \<and> nodeMap ?s' kc = Some c \<and> kc \<in> set (childIds raw))"
    using ca prov(1,4) by blast
next
  fix c p assume c: "c < length (heap_of ?s')" and p: "parent_of (heap_of ?s' ! c) = Some p"
  have "c \<noteq> length (heap_of s)" using p assms(4) by (auto simp: nth_append)
  then have lt: "c < length (heap_of s)" using c by simp
  then have "parent_of (heap_of s ! c) = Some p" using p by (simp add: nth_append)
  from linked_parent[OF assms(1) lt this]
  show "c < p \<and> p < length (heap_of ?s') \<and> c \<in> set (children_of (heap_of ?s' ! p))"
    by (simp add: nth_append)
qed


lemma linked_connect:
  assumes L: "linked seen s" and kin: "(k, raw) \<in> set seen" and ka: "nodeMap s k = Some a"
      and top: "Suc a = length (heap_of s)" and el: "is_element (heap_of s ! a)"
      and cin: "cid \<in> set (childIds raw)" and ns: "cid \<noteq> k"
      and sl: "\<And>k' raw'. (k', raw') \<in> set seen \<Longrightarrow> k' \<noteq> k \<Longrightarrow> cid \<notin> set (childIds raw')"
      and pl: "cid \<notin> set inherited_names" and ip: "inheritedParent s ''__proto__'' = None"
  shows "linked seen (connect_child a cid s)"
proof (cases "nodeMap s cid")
  case None
  then show ?thesis using L pl ip by (simp add: connect_child_skip)
next
  case (Some c)
  let ?s' = "connect_child a cid s"
  have la: "a < length (heap_of s)" using top by simp
  have lc: "c < length (heap_of s)" using linked_bound[OF L Some] .
  have "c \<noteq> a" using linked_inj[OF L Some] ka ns by blast
  then have ca: "c < a" using lc top by simp
  have len: "length (heap_of ?s') = length (heap_of s)" by (rule connect_child_frame)
  have nm: "nodeMap ?s' = nodeMap s" by (rule connect_child_frame)
  have ch: "\<And>x. x < length (heap_of s) \<Longrightarrow> children_of (heap_of ?s' ! x)
           = (if x = a then children_of (heap_of s ! a) @ [c] else children_of (heap_of s ! x))"
    by (rule connect_child_children[OF Some la lc el])
  have pa: "\<And>x. x < length (heap_of s) \<Longrightarrow> parent_of (heap_of ?s' ! x)
           = (if x = c then Some a else parent_of (heap_of s ! x))"
    by (rule connect_child_parent[OF Some la lc])
  show ?thesis
  proof (rule linkedI)
    fix k' c' assume "nodeMap ?s' k' = Some c'"
    then show "c' < length (heap_of ?s')" using linked_bound[OF L] nm len by simp
  next
    fix k1 k2 c' assume "nodeMap ?s' k1 = Some c'" "nodeMap ?s' k2 = Some c'"
    then show "k1 = k2" using linked_inj[OF L] nm by simp
  next
    fix x y assume x: "x < length (heap_of ?s')" and y: "y \<in> set (children_of (heap_of ?s' ! x))"
    have lx: "x < length (heap_of s)" using x len by simp
    show "y < x \<and> parent_of (heap_of ?s' ! y) = Some x
             \<and> (\<exists>k raw kc. (k, raw) \<in> set seen \<and> nodeMap ?s' k = Some x
                   \<and> nodeMap ?s' kc = Some y \<and> kc \<in> set (childIds raw))"
    proof (cases "y = c \<and> x = a")
      case True
      have "parent_of (heap_of ?s' ! c) = Some a" using pa[OF lc] by simp
      moreover have "\<exists>k raw kc. (k, raw) \<in> set seen \<and> nodeMap ?s' k = Some a
                   \<and> nodeMap ?s' kc = Some c \<and> kc \<in> set (childIds raw)"
        using kin ka Some cin nm by auto
      ultimately show ?thesis using True ca by simp
    next
      case False
      have old: "y \<in> set (children_of (heap_of s ! x))"
        using y ch[OF lx] False by (auto split: if_splits)
      from linked_child[OF L lx old]
      obtain k1 raw1 kc where yx: "y < x" and par: "parent_of (heap_of s ! y) = Some x"
        and prov: "(k1, raw1) \<in> set seen" "nodeMap s k1 = Some x" "nodeMap s kc = Some y"
                  "kc \<in> set (childIds raw1)"
        by blast
      have ly: "y < length (heap_of s)" using yx lx by simp
      have "y \<noteq> c"
      proof
        assume "y = c"
        then have "x \<noteq> a" using False by simp
        then have "k1 \<noteq> k" using prov(2) ka by auto
        moreover have "kc = cid" using linked_inj[OF L prov(3)] Some \<open>y = c\<close> by simp
        ultimately show False using sl[OF prov(1)] prov(4) by simp
      qed
      then have "parent_of (heap_of ?s' ! y) = Some x" using pa[OF ly] par by simp
      then show ?thesis using yx prov nm by auto
    qed
  next
    fix x p assume x: "x < length (heap_of ?s')" and p: "parent_of (heap_of ?s' ! x) = Some p"
    have lx: "x < length (heap_of s)" using x len by simp
    show "x < p \<and> p < length (heap_of ?s') \<and> x \<in> set (children_of (heap_of ?s' ! p))"
    proof (cases "x = c")
      case True
      then have "p = a" using p pa[OF lx] by simp
      then show ?thesis using True ca la len ch[OF la] by simp
    next
      case False
      then have "parent_of (heap_of s ! x) = Some p" using p pa[OF lx] by simp
      from linked_parent[OF L lx this]
      have "x < p" "p < length (heap_of s)" "x \<in> set (children_of (heap_of s ! p))"
        by simp_all
      then show ?thesis using len ch[of p] by auto
    qed
  qed
qed

lemma connect_child_top_element:
  "Suc a = length (heap_of s) \<Longrightarrow> is_element (heap_of s ! a) \<Longrightarrow>
     Suc a = length (heap_of (connect_child a cid s)) \<and>
     is_element (heap_of (connect_child a cid s) ! a)"
  by (simp add: connect_child_frame connect_child_is_element)

lemma linked_fold_connect:
  assumes kin: "(k, raw) \<in> set seen"
      and ns: "k \<notin> set (childIds raw)"
      and sl: "\<And>k' raw'. (k', raw') \<in> set seen \<Longrightarrow> k' \<noteq> k \<Longrightarrow>
                 set (childIds raw) \<inter> set (childIds raw') = {}"
      and pl: "\<forall>c\<in>set (childIds raw). c \<notin> set inherited_names"
  shows "linked seen s \<Longrightarrow> nodeMap s k = Some a \<Longrightarrow> Suc a = length (heap_of s) \<Longrightarrow>
         is_element (heap_of s ! a) \<Longrightarrow> set cs \<subseteq> set (childIds raw) \<Longrightarrow>
         inheritedParent s ''__proto__'' = None \<Longrightarrow>
         linked seen (fold (connect_child a) cs s)"
proof (induction cs arbitrary: s)
  case Nil
  then show ?case by simp
next
  case (Cons cid cs)
  have cin: "cid \<in> set (childIds raw)" using Cons.prems(5) by simp
  have cpl: "cid \<notin> set inherited_names" using pl cin by blast
  have "linked seen (connect_child a cid s)"
  proof (rule linked_connect[OF Cons.prems(1) kin Cons.prems(2,3,4) cin _ _ cpl Cons.prems(6)])
    show "cid \<noteq> k" using cin ns by auto
    fix k' raw' assume "(k', raw') \<in> set seen" "k' \<noteq> k"
    from sl[OF this] show "cid \<notin> set (childIds raw')" using cin by auto
  qed
  moreover have "nodeMap (connect_child a cid s) k = Some a"
    using Cons.prems(2) by (simp add: connect_child_frame)
  moreover have "Suc a = length (heap_of (connect_child a cid s))"
    "is_element (heap_of (connect_child a cid s) ! a)"
    using connect_child_top_element[OF Cons.prems(3,4)] by simp_all
  moreover have "set cs \<subseteq> set (childIds raw)" using Cons.prems(5) by simp
  moreover have "inheritedParent (connect_child a cid s) ''__proto__'' = None"
    using Cons.prems(6) cpl by (simp add: connect_child_untouched)
  ultimately have "linked seen (fold (connect_child a) cs (connect_child a cid s))"
    by (rule Cons.IH)
  then show ?case by simp
qed


lemma parseNode_fresh:
  "parseNode raw = (Some n, cs) \<Longrightarrow> children_of n = [] \<and> parent_of n = None \<and> cs = childIds raw"
  by (cases raw) (auto simp: childIds_def)

lemma register_highlight_frame:
  "heap_of (register_highlight a n s) = heap_of s"
  "nodeMap (register_highlight a n s) = nodeMap s"
  "inheritedParent (register_highlight a n s) = inheritedParent s"
  "foreignBase (register_highlight a n s) = foreignBase s"
  "prototypeReplaced (register_highlight a n s) = prototypeReplaced s"
  by (simp_all add: register_highlight_def split: option.splits)

lemma store_node_frame:
  "heap_of (store_node k a s) = heap_of s"
  "selectorMap (store_node k a s) = selectorMap s"
  "inheritedParent (store_node k a s) = inheritedParent s"
  "foreignBase (store_node k a s) = foreignBase s"
  "nodeMap (store_node k a s) = (if k = ''__proto__'' then nodeMap s else (nodeMap s)(k \<mapsto> a))"
  "prototypeReplaced (store_node k a s) = (k = ''__proto__'' \<or> prototypeReplaced s)"
  by (simp_all add: store_node_def)

lemma process_entry_null: "fst (parseNode raw) = None \<Longrightarrow> process_entry (k, raw) s = s"
  by (cases "parseNode raw") (simp add: process_entry_def)

lemma process_entry_stored:
  "parseNode raw = (Some n, cs) \<Longrightarrow>
   process_entry (k, raw) s =
     (let s2 = register_highlight (length (heap_of s)) n
                 (store_node k (length (heap_of s)) (s\<lparr>heap_of := heap_of s @ [n]\<rparr>))
      in if is_element n then fold (connect_child (length (heap_of s))) cs s2 else s2)"
  by (simp add: process_entry_def Let_def)

lemma process_entry_node:
  "parseNode raw = (Some n, cs) \<Longrightarrow> k \<noteq> ''__proto__'' \<Longrightarrow>
   process_entry (k, raw) s =
     (let s2 = register_highlight (length (heap_of s)) n
                 (s\<lparr>heap_of := heap_of s @ [n], nodeMap := (nodeMap s)(k \<mapsto> length (heap_of s))\<rparr>)
      in if is_element n then fold (connect_child (length (heap_of s))) cs s2 else s2)"
  by (simp add: process_entry_def store_node_def Let_def)

lemma process_entry_nodeMap:
  "nodeMap (process_entry (k, raw) s) =
     (case fst (parseNode raw) of None \<Rightarrow> nodeMap s
      | Some n \<Rightarrow> if k = ''__proto__'' then nodeMap s
                  else (nodeMap s)(k \<mapsto> length (heap_of s)))"
proof (cases "parseNode raw")
  case (Pair n cs)
  then show ?thesis
    by (cases n)
       (simp_all add: process_entry_null process_entry_stored Let_def fold_connect_frame
          register_highlight_frame store_node_frame)
qed

lemma process_entry_untouched:
  assumes "k \<noteq> ''__proto__''" and "\<forall>c\<in>set (childIds raw). c \<notin> set inherited_names"
  shows "inheritedParent (process_entry (k, raw) s) = inheritedParent s"
    and "prototypeReplaced (process_entry (k, raw) s) = prototypeReplaced s"
proof -
  obtain no cs where pn: "parseNode raw = (no, cs)" by (cases "parseNode raw")
  then have cs: "\<forall>c\<in>set cs. c \<notin> set inherited_names"
    using assms(2) by (simp add: childIds_def)
  show "inheritedParent (process_entry (k, raw) s) = inheritedParent s"
    using pn cs
    by (cases no)
       (simp_all add: process_entry_null process_entry_stored Let_def fold_connect_untouched
          register_highlight_frame store_node_frame)
  show "prototypeReplaced (process_entry (k, raw) s) = prototypeReplaced s"
    using pn assms(1)
    by (cases no)
       (simp_all add: process_entry_null process_entry_stored Let_def fold_connect_frame
          register_highlight_frame store_node_frame)
qed

lemma process_entry_base: "foreignBase (process_entry (k, raw) s) = foreignBase s"
proof (cases "parseNode raw")
  case (Pair n cs)
  then show ?thesis
    by (cases n)
       (simp_all add: process_entry_null process_entry_stored Let_def fold_connect_frame
          register_highlight_frame store_node_frame)
qed

lemma process_entry_length:
  "length (heap_of (process_entry (k, raw) s)) =
     (case fst (parseNode raw) of None \<Rightarrow> length (heap_of s) | Some n \<Rightarrow> Suc (length (heap_of s)))"
proof (cases "parseNode raw")
  case (Pair n cs)
  then show ?thesis
    by (cases n)
       (simp_all add: process_entry_null process_entry_stored Let_def fold_connect_frame
          register_highlight_frame store_node_frame)
qed

lemma process_entry_is_element:
  assumes "x < length (heap_of s)"
  shows "is_element (heap_of (process_entry (k, raw) s) ! x) = is_element (heap_of s ! x)"
proof (cases "parseNode raw")
  case (Pair n cs)
  then show ?thesis using assms
    by (cases n)
       (simp_all add: process_entry_null process_entry_stored Let_def fold_connect_is_element
          register_highlight_frame store_node_frame nth_append)
qed

lemma process_entry_new_element:
  assumes "parseNode raw = (Some n, cs)"
  shows "is_element (heap_of (process_entry (k, raw) s) ! length (heap_of s)) = is_element n"
  using assms
  by (simp add: process_entry_stored Let_def fold_connect_is_element register_highlight_frame
        store_node_frame)

lemma fold_process_dom:
  "dom (nodeMap (fold process_entry es s)) \<subseteq> dom (nodeMap s) \<union> fst ` set es"
proof (induction es arbitrary: s)
  case Nil
  then show ?case by simp
next
  case (Cons e es)
  obtain k raw where e: "e = (k, raw)" by (cases e)
  have "dom (nodeMap (process_entry (k, raw) s)) \<subseteq> insert k (dom (nodeMap s))"
    by (auto simp: process_entry_nodeMap split: option.splits if_splits)
  moreover have "dom (nodeMap (fold process_entry es (process_entry (k, raw) s)))
      \<subseteq> dom (nodeMap (process_entry (k, raw) s)) \<union> fst ` set es"
    by (rule Cons.IH)
  ultimately have "dom (nodeMap (fold process_entry es (process_entry (k, raw) s)))
      \<subseteq> insert k (dom (nodeMap s)) \<union> fst ` set es"
    by blast
  then show ?case using e by simp
qed

lemma build_dom: "dom (nodeMap (fold process_entry es (init_cstate base))) \<subseteq> fst ` set es"
  using fold_process_dom[of es "init_cstate base"] by (simp add: init_cstate_def)

lemma build_fresh:
  "k \<notin> fst ` set es \<Longrightarrow> nodeMap (fold process_entry es (init_cstate base)) k = None"
  using build_dom[of es base] by blast

lemma plain_idsD:
  assumes "plain_ids tbl" and "(k, raw) \<in> set tbl"
  shows "k \<notin> set inherited_names" and "\<forall>c\<in>set (childIds raw). c \<notin> set inherited_names"
  using assms unfolding plain_ids_def by blast+

lemma plain_ids_key: "plain_ids tbl \<Longrightarrow> (k, raw) \<in> set tbl \<Longrightarrow> k \<noteq> ''__proto__''"
  using plain_idsD(1) proto_inherited by blast

lemma fold_process_untouched:
  assumes "plain_ids tbl"
  shows "set es \<subseteq> set tbl \<Longrightarrow>
         inheritedParent (fold process_entry es s) = inheritedParent s
         \<and> prototypeReplaced (fold process_entry es s) = prototypeReplaced s"
proof (induction es arbitrary: s)
  case Nil
  then show ?case by simp
next
  case (Cons e es)
  obtain k raw where e: "e = (k, raw)" by (cases e)
  have kin: "(k, raw) \<in> set tbl" and sub: "set es \<subseteq> set tbl" using Cons.prems e by auto
  have "inheritedParent (process_entry (k, raw) s) = inheritedParent s"
       "prototypeReplaced (process_entry (k, raw) s) = prototypeReplaced s"
    by (rule process_entry_untouched[OF plain_ids_key[OF assms kin] plain_idsD(2)[OF assms kin]])+
  then show ?case using Cons.IH[OF sub, of "process_entry (k, raw) s"] e by simp
qed

lemma build_untouched:
  assumes "plain_ids tbl" and "set es \<subseteq> set tbl"
  shows "inheritedParent (fold process_entry es (init_cstate base)) = Map.empty"
    and "\<not> prototypeReplaced (fold process_entry es (init_cstate base))"
  using fold_process_untouched[OF assms, of "init_cstate base"] by (simp_all add: init_cstate_def)

lemma fold_process_length: "length (heap_of (fold process_entry es s)) \<le> length (heap_of s) + length es"
proof (induction es arbitrary: s)
  case Nil
  then show ?case by simp
next
  case (Cons e es)
  obtain k raw where e: "e = (k, raw)" by (cases e)
  have "length (heap_of (process_entry (k, raw) s)) \<le> Suc (length (heap_of s))"
    by (simp add: process_entry_length split: option.splits)
  then show ?case using Cons.IH[of "process_entry (k, raw) s"] e by simp
qed

lemma linked_process_entry:
  assumes L: "linked seen s" and fresh: "nodeMap s k = None"
      and ns: "k \<notin> set (childIds raw)"
      and sl: "\<And>k' raw'. (k', raw') \<in> set seen \<Longrightarrow> k' \<noteq> k \<Longrightarrow>
                 set (childIds raw) \<inter> set (childIds raw') = {}"
      and kp: "k \<noteq> ''__proto__''"
      and pl: "\<forall>c\<in>set (childIds raw). c \<notin> set inherited_names"
      and ip: "inheritedParent s ''__proto__'' = None"
  shows "linked (seen @ [(k, raw)]) (process_entry (k, raw) s)"
proof (cases "parseNode raw")
  case (Pair no cs)
  show ?thesis
  proof (cases no)
    case None
    then have "process_entry (k, raw) s = s" using Pair by (simp add: process_entry_null)
    moreover have "linked (seen @ [(k, raw)]) s" by (rule linked_mono[OF L]) auto
    ultimately show ?thesis by simp
  next
    case (Some n)
    let ?a = "length (heap_of s)"
    let ?s1 = "s\<lparr>heap_of := heap_of s @ [n], nodeMap := (nodeMap s)(k \<mapsto> ?a)\<rparr>"
    let ?s2 = "register_highlight ?a n ?s1"
    have pn: "parseNode raw = (Some n, cs)" using Pair Some by simp
    have fr: "children_of n = []" "parent_of n = None" "cs = childIds raw"
      using parseNode_fresh[OF pn] by simp_all
    have "linked seen ?s1" by (rule linked_alloc[OF L fresh fr(1,2)])
    then have "linked (seen @ [(k, raw)]) ?s1" by (rule linked_mono) auto
    then have L2: "linked (seen @ [(k, raw)]) ?s2" by (simp add: linked_register)
    show ?thesis
    proof (cases "is_element n")
      case False
      then show ?thesis using L2 pn kp by (simp add: process_entry_node Let_def)
    next
      case True
      have "linked (seen @ [(k, raw)]) (fold (connect_child ?a) cs ?s2)"
      proof (rule linked_fold_connect[where k = k and raw = raw, OF _ ns _ pl L2])
        show "(k, raw) \<in> set (seen @ [(k, raw)])" by simp
        show "nodeMap ?s2 k = Some ?a" by (simp add: register_highlight_frame)
        show "Suc ?a = length (heap_of ?s2)" by (simp add: register_highlight_frame)
        show "is_element (heap_of ?s2 ! ?a)" using True by (simp add: register_highlight_frame)
        show "set cs \<subseteq> set (childIds raw)" using fr(3) by simp
        show "inheritedParent ?s2 ''__proto__'' = None"
          using ip by (simp add: register_highlight_frame)
        fix k' raw' assume "(k', raw') \<in> set (seen @ [(k, raw)])" "k' \<noteq> k"
        then have "(k', raw') \<in> set seen" by auto
        from sl[OF this \<open>k' \<noteq> k\<close>]
        show "set (childIds raw) \<inter> set (childIds raw') = {}" .
      qed
      then show ?thesis using True pn kp by (simp add: process_entry_node Let_def)
    qed
  qed
qed

lemma no_self_listingD: "no_self_listing tbl \<Longrightarrow> (k, raw) \<in> set tbl \<Longrightarrow> k \<notin> set (childIds raw)"
  unfolding no_self_listing_def by blast

lemma single_listingD:
  "single_listing tbl \<Longrightarrow> (k, raw) \<in> set tbl \<Longrightarrow> (k', raw') \<in> set tbl \<Longrightarrow> k \<noteq> k' \<Longrightarrow>
     set (childIds raw) \<inter> set (childIds raw') = {}"
  unfolding single_listing_def by blast

lemma unlistedD: "unlisted tbl rootId \<Longrightarrow> (k, raw) \<in> set tbl \<Longrightarrow> rootId \<notin> set (childIds raw)"
  unfolding unlisted_def by blast

lemma linked_fold_entries:
  assumes ns: "no_self_listing tbl" and sl: "single_listing tbl" and pl: "plain_ids tbl"
  shows "distinct (map fst es) \<Longrightarrow> set es \<subseteq> set tbl \<Longrightarrow>
         linked es (fold process_entry es (init_cstate base))"
proof (induction es rule: rev_induct)
  case Nil
  then show ?case by (simp add: linked_init)
next
  case (snoc e es)
  obtain k raw where e: "e = (k, raw)" by (cases e)
  have d: "distinct (map fst es)" and kf: "k \<notin> fst ` set es"
    using snoc.prems(1) e by auto
  have sub: "set es \<subseteq> set tbl" and kin: "(k, raw) \<in> set tbl" using snoc.prems(2) e by auto
  have L: "linked es (fold process_entry es (init_cstate base))" by (rule snoc.IH[OF d sub])
  have "linked (es @ [(k, raw)])
          (process_entry (k, raw) (fold process_entry es (init_cstate base)))"
  proof (rule linked_process_entry[OF L build_fresh[OF kf] no_self_listingD[OF ns kin]])
    fix k' raw' assume "(k', raw') \<in> set es" "k' \<noteq> k"
    then show "set (childIds raw) \<inter> set (childIds raw') = {}"
      using single_listingD[OF sl kin, of k' raw'] sub by auto
  next
    show "k \<noteq> ''__proto__''" by (rule plain_ids_key[OF pl kin])
    show "\<forall>c\<in>set (childIds raw). c \<notin> set inherited_names" by (rule plain_idsD(2)[OF pl kin])
    show "inheritedParent (fold process_entry es (init_cstate base)) ''__proto__'' = None"
      using build_untouched(1)[OF pl sub] by simp
  qed
  then show ?case using e by simp
qed



lemma build_shape:
  "distinct (map fst es) \<Longrightarrow> ''__proto__'' \<notin> fst ` set es \<Longrightarrow> (k, raw) \<in> set es \<Longrightarrow>
     (case fst (parseNode raw) of
        None \<Rightarrow> nodeMap (fold process_entry es (init_cstate base)) k = None
      | Some n \<Rightarrow>
          (\<exists>a<length (heap_of (fold process_entry es (init_cstate base))).
             nodeMap (fold process_entry es (init_cstate base)) k = Some a
             \<and> is_element (heap_of (fold process_entry es (init_cstate base)) ! a) = is_element n))"
proof (induction es rule: rev_induct)
  case Nil
  then show ?case by simp
next
  case (snoc e es)
  obtain k' raw' where e: "e = (k', raw')" by (cases e)
  let ?s = "fold process_entry es (init_cstate base)"
  let ?s' = "process_entry (k', raw') ?s"
  have d: "distinct (map fst es)" and kf: "k' \<notin> fst ` set es"
    using snoc.prems(1) e by auto
  have np: "''__proto__'' \<notin> fst ` set es" and kp: "k' \<noteq> ''__proto__''"
    using snoc.prems(2) e by auto
  have fold: "fold process_entry (es @ [e]) (init_cstate base) = ?s'" using e by simp
  show ?case
  proof (cases "(k, raw) \<in> set es")
    case True
    then have ne: "k \<noteq> k'" using kf by force
    have nm: "nodeMap ?s' k = nodeMap ?s k"
      using ne by (simp add: process_entry_nodeMap split: option.splits)
    have len: "length (heap_of ?s) \<le> length (heap_of ?s')"
      by (simp add: process_entry_length split: option.splits)
    show ?thesis
    proof (cases "fst (parseNode raw)")
      case None
      then show ?thesis using snoc.IH[OF d np True] nm fold by simp
    next
      case (Some n)
      then obtain a where a: "a < length (heap_of ?s)" "nodeMap ?s k = Some a"
          "is_element (heap_of ?s ! a) = is_element n"
        using snoc.IH[OF d np True] by auto
      have "is_element (heap_of ?s' ! a) = is_element n"
        using a(1,3) by (simp add: process_entry_is_element)
      moreover have "a < length (heap_of ?s')" using a(1) len by simp
      ultimately show ?thesis using Some a(2) nm fold by auto
    qed
  next
    case False
    then have last: "k = k'" "raw = raw'" using snoc.prems(3) e by auto
    have fresh: "nodeMap ?s k' = None" by (rule build_fresh[OF kf])
    show ?thesis
    proof (cases "parseNode raw'")
      case (Pair no cs)
      show ?thesis
      proof (cases no)
        case None
        then show ?thesis using Pair last fresh fold by (simp add: process_entry_null)
      next
        case (Some n)
        then have pn: "parseNode raw' = (Some n, cs)" using Pair by simp
        have "nodeMap ?s' k' = Some (length (heap_of ?s))"
          using pn kp by (simp add: process_entry_nodeMap)
        moreover have "length (heap_of ?s) < length (heap_of ?s')"
          using pn by (simp add: process_entry_length)
        moreover have "is_element (heap_of ?s' ! length (heap_of ?s)) = is_element n"
          by (rule process_entry_new_element[OF pn])
        ultimately show ?thesis using pn last fold by auto
      qed
    qed
  qed
qed

lemma map_of_object_entries:
  "distinct (map fst obj) \<Longrightarrow> map_of (object_entries obj) = map_of obj"
  by (rule map_of_inject_set[THEN iffD2])
     (simp_all add: distinct_object_entries set_object_entries)

lemma is_element_parse_elem: "\<exists>n cs. parseNode (RawElem r) = (Some n, cs) \<and> is_element n"
  by simp

lemma plain_ids_entries: "plain_ids tbl \<Longrightarrow> ''__proto__'' \<notin> fst ` set (object_entries tbl)"
  using plain_ids_key by (fastforce simp: set_object_entries)

lemma build_plain:
  assumes "plain_ids tbl"
  shows "inheritedParent (build_nodes tbl) = Map.empty"
    and "\<not> prototypeReplaced (build_nodes tbl)"
  unfolding build_nodes_def
  by (rule build_untouched[OF assms], simp add: set_object_entries)+

lemma construct_outcome:
  assumes "distinct (map fst tbl)" and "plain_ids tbl"
  shows "constructDOMTree tbl rootId =
     (case map_of tbl rootId of
        Some (RawElem r) \<Rightarrow>
          Inr (the (nodeMap (build_nodes tbl) rootId), selectorMap (build_nodes tbl),
               heap_of (build_nodes tbl))
      | _ \<Rightarrow> Inl MalformedSnapshot)"
proof (cases "map_of tbl rootId")
  case None
  then have "rootId \<notin> fst ` set (object_entries tbl)"
    by (simp add: map_of_eq_None_iff set_object_entries)
  then have "nodeMap (build_nodes tbl) rootId = None"
    unfolding build_nodes_def by (rule build_fresh)
  then have "read_nodeMap (build_nodes tbl) rootId
               = (if rootId \<in> set inherited_names then Some (InheritedObject rootId) else None)"
    by (rule read_nodeMap_unstored) (simp add: build_plain(1)[OF assms(2)])
  then show ?thesis using None build_plain(2)[OF assms(2)] by (simp add: constructDOMTree_def)
next
  case (Some raw)
  then have "(rootId, raw) \<in> set (object_entries tbl)"
    by (simp add: map_of_SomeD set_object_entries)
  from build_shape[OF distinct_object_entries[OF assms(1)] plain_ids_entries[OF assms(2)] this]
  have sh: "case fst (parseNode raw) of
        None \<Rightarrow> nodeMap (build_nodes tbl) rootId = None
      | Some n \<Rightarrow>
          (\<exists>a<length (heap_of (build_nodes tbl)).
             nodeMap (build_nodes tbl) rootId = Some a
             \<and> is_element (heap_of (build_nodes tbl) ! a) = is_element n)"
    unfolding build_nodes_def .
  have nr: "\<not> prototypeReplaced (build_nodes tbl)" by (rule build_plain(2)[OF assms(2)])
  show ?thesis
  proof (cases raw)
    case RawNull
    then have "nodeMap (build_nodes tbl) rootId = None" using sh by simp
    then have "read_nodeMap (build_nodes tbl) rootId
               = (if rootId \<in> set inherited_names then Some (InheritedObject rootId) else None)"
      by (rule read_nodeMap_unstored) (simp add: build_plain(1)[OF assms(2)])
    then show ?thesis using Some RawNull nr by (simp add: constructDOMTree_def)
  next
    case (RawText t v)
    then obtain a where "a < length (heap_of (build_nodes tbl))"
        "nodeMap (build_nodes tbl) rootId = Some a" "\<not> is_element (heap_of (build_nodes tbl) ! a)"
      using sh by auto
    then show ?thesis using Some RawText nr
      by (cases "heap_of (build_nodes tbl) ! a")
         (simp_all add: constructDOMTree_def read_nodeMap_own lookup_def)
  next
    case (RawElem r)
    then obtain a where "a < length (heap_of (build_nodes tbl))"
        "nodeMap (build_nodes tbl) rootId = Some a" "is_element (heap_of (build_nodes tbl) ! a)"
      using sh by auto
    then show ?thesis using Some RawElem nr
      by (cases "heap_of (build_nodes tbl) ! a")
         (simp_all add: constructDOMTree_def read_nodeMap_own lookup_def Let_def)
  qed
qed


lemma tangled_keys: "distinct (map fst tangled_table)"
  by (simp add: tangled_table_def)

lemma insort_key_map:
  assumes "\<And>y. f (h y) = f y"
  shows "insort_key f (h x) (map h xs) = map h (insort_key f x xs)"
  by (induction xs) (simp_all add: assms)

lemma sort_key_map:
  assumes "\<And>y. f (h y) = f y"
  shows "sort_key f (map h xs) = map h (sort_key f xs)"
proof (induction xs)
  case Nil
  then show ?case by simp
next
  case (Cons x xs)
  have "insort_key f (h x) (map h (sort_key f xs)) = map h (insort_key f x (sort_key f xs))"
    by (rule insort_key_map) (rule assms)
  then show ?case using Cons by simp
qed

lemma object_entries_map_values:
  fixes g :: "string \<times> 'v \<Rightarrow> 'v"
  shows "object_entries (map (\<lambda>kv. (fst kv, g kv)) obj)
           = map (\<lambda>kv. (fst kv, g kv)) (object_entries obj)"
proof -
  let ?h = "\<lambda>kv. (fst kv, g kv)"
  have i: "\<And>y. index_of_entry (?h y) = index_of_entry y"
    by (simp add: index_of_entry_def)
  have p: "\<And>y. is_index_entry (?h y) = is_index_entry y"
    by (simp add: is_index_entry_def)
  have "sort_key index_of_entry (map ?h (filter is_index_entry obj))
          = map ?h (sort_key index_of_entry (filter is_index_entry obj))"
    using sort_key_map[where f = index_of_entry and h = ?h, OF i] by simp
  then show ?thesis
    by (simp add: object_entries_def filter_map comp_def p)
qed

lemma fold_connect_filter:
  "\<forall>c. c \<notin> K \<longrightarrow> nodeMap s c = None \<Longrightarrow> \<forall>c\<in>set cs. c \<notin> set inherited_names \<Longrightarrow>
     inheritedParent s ''__proto__'' = None \<Longrightarrow>
     fold (connect_child a) (filter (\<lambda>c. c \<in> K) cs) s = fold (connect_child a) cs s"
proof (induction cs arbitrary: s)
  case Nil
  then show ?case by simp
next
  case (Cons c cs)
  have cp: "c \<notin> set inherited_names" and csp: "\<forall>c\<in>set cs. c \<notin> set inherited_names"
    using Cons.prems(2) by simp_all
  have keep: "\<forall>c'. c' \<notin> K \<longrightarrow> nodeMap (connect_child a c s) c' = None"
    using Cons.prems(1) by (simp add: connect_child_frame)
  have ip: "inheritedParent (connect_child a c s) ''__proto__'' = None"
    using Cons.prems(3) cp by (simp add: connect_child_untouched)
  show ?case
  proof (cases "c \<in> K")
    case True
    then show ?thesis using Cons.IH[OF keep csp ip] by simp
  next
    case False
    then have "connect_child a c s = s"
      using Cons.prems(1,3) cp by (simp add: connect_child_skip)
    then show ?thesis using False Cons.IH[OF Cons.prems(1) csp Cons.prems(3)] by simp
  qed
qed

lemma process_entry_prune:
  assumes "\<forall>c. c \<notin> set keys \<longrightarrow> nodeMap s c = None" and "k \<in> set keys"
      and "k \<noteq> ''__proto__''" and "\<forall>c\<in>set (childIds raw). c \<notin> set inherited_names"
      and "inheritedParent s ''__proto__'' = None"
  shows "process_entry (k, prune_raw keys raw) s = process_entry (k, raw) s"
proof (cases raw)
  case RawNull
  then show ?thesis by (simp add: prune_raw_def)
next
  case (RawText t v)
  then show ?thesis by (simp add: prune_raw_def)
next
  case (RawElem r)
  let ?a = "length (heap_of s)"
  obtain n cs where pn: "parseNode (RawElem r) = (Some n, cs)" and el: "is_element n"
    by simp
  have pn': "parseNode (prune_raw keys (RawElem r)) = (Some n, filter (\<lambda>c. c \<in> set keys) cs)"
    using pn by (cases "raw_children r") (auto simp: prune_raw_def)
  have csp: "\<forall>c\<in>set cs. c \<notin> set inherited_names"
    using assms(4) parseNode_fresh[OF pn] RawElem by simp
  let ?s2 = "register_highlight ?a n
               (s\<lparr>heap_of := heap_of s @ [n], nodeMap := (nodeMap s)(k \<mapsto> ?a)\<rparr>)"
  have f1: "\<forall>c. c \<notin> set keys \<longrightarrow> nodeMap ?s2 c = None"
    using assms(1,2) by (simp add: register_highlight_frame)
  have f3: "inheritedParent ?s2 ''__proto__'' = None"
    using assms(5) by (simp add: register_highlight_frame)
  have "fold (connect_child ?a) (filter (\<lambda>c. c \<in> set keys) cs) ?s2
               = fold (connect_child ?a) cs ?s2"
    by (rule fold_connect_filter[OF f1 csp f3])
  then show ?thesis
    unfolding RawElem process_entry_node[OF pn assms(3)] process_entry_node[OF pn' assms(3)] Let_def
    using el by simp
qed

lemma fold_process_prune:
  assumes "plain_ids tbl"
  shows "\<forall>c. c \<notin> set keys \<longrightarrow> nodeMap s c = None \<Longrightarrow> fst ` set es \<subseteq> set keys \<Longrightarrow>
     set es \<subseteq> set tbl \<Longrightarrow> inheritedParent s ''__proto__'' = None \<Longrightarrow>
     fold process_entry (map (\<lambda>kv. (fst kv, prune_raw keys (snd kv))) es) s
       = fold process_entry es s"
proof (induction es arbitrary: s)
  case Nil
  then show ?case by simp
next
  case (Cons e es)
  obtain k raw where e: "e = (k, raw)" by (cases e)
  have k: "k \<in> set keys" using Cons.prems(2) e by simp
  have kin: "(k, raw) \<in> set tbl" using Cons.prems(3) e by simp
  have kp: "k \<noteq> ''__proto__''" by (rule plain_ids_key[OF assms kin])
  have cp: "\<forall>c\<in>set (childIds raw). c \<notin> set inherited_names"
    by (rule plain_idsD(2)[OF assms kin])
  have step: "process_entry (k, prune_raw keys raw) s = process_entry (k, raw) s"
    by (rule process_entry_prune[OF Cons.prems(1) k kp cp Cons.prems(4)])
  have keep: "\<forall>c. c \<notin> set keys \<longrightarrow> nodeMap (process_entry (k, raw) s) c = None"
    using Cons.prems(1) k by (auto simp: process_entry_nodeMap split: option.splits)
  have ip: "inheritedParent (process_entry (k, raw) s) ''__proto__'' = None"
    using Cons.prems(4) process_entry_untouched(1)[OF kp cp] by simp
  have "fst ` set es \<subseteq> set keys" "set es \<subseteq> set tbl" using Cons.prems(2,3) by simp_all
  from Cons.IH[OF keep this ip] show ?case using e step by simp
qed

lemma build_drop_dangling:
  assumes "plain_ids tbl"
  shows "build_nodes (drop_dangling tbl) = build_nodes tbl"
proof -
  have "object_entries (drop_dangling tbl)
          = map (\<lambda>kv. (fst kv, prune_raw (map fst tbl) (snd kv))) (object_entries tbl)"
    unfolding drop_dangling_def by (rule object_entries_map_values)
  moreover have "fold process_entry
          (map (\<lambda>kv. (fst kv, prune_raw (map fst tbl) (snd kv))) (object_entries tbl))
          (init_cstate (length tbl))
        = fold process_entry (object_entries tbl) (init_cstate (length tbl))"
    by (rule fold_process_prune[OF assms]) (simp_all add: init_cstate_def set_object_entries)
  moreover have "length (drop_dangling tbl) = length tbl" by (simp add: drop_dangling_def)
  ultimately show ?thesis by (simp add: build_nodes_def)
qed

lemma construct_drop_dangling:
  "plain_ids tbl \<Longrightarrow> constructDOMTree (drop_dangling tbl) rootId = constructDOMTree tbl rootId"
  by (simp add: constructDOMTree_def build_drop_dangling)

lemma dangling_entries: "object_entries dangling_table = dangling_table"
  by (simp add: dangling_table_def entries_eval)

lemma dangling_build:
  "build_nodes dangling_table =
     \<lparr>heap_of = bottom_up_heap, nodeMap = [''0'' \<mapsto> 0, ''1'' \<mapsto> 1], selectorMap = [0 \<mapsto> 0],
      inheritedParent = Map.empty, foreignBase = 2, prototypeReplaced = False\<rparr>"
  unfolding build_nodes_def dangling_entries
  by (simp add: dangling_table_def bottom_up_heap_def build_eval)



lemma linked_build:
  assumes "distinct (map fst tbl)" and "no_self_listing tbl" and "single_listing tbl"
      and "plain_ids tbl"
  shows "linked (object_entries tbl) (build_nodes tbl)"
  unfolding build_nodes_def
  by (rule linked_fold_entries[OF assms(2,3,4) distinct_object_entries[OF assms(1)]])
     (simp add: set_object_entries)

lemma linked_children_below: "linked seen s \<Longrightarrow> children_below (heap_of s)"
  unfolding children_below_def
proof (intro ballI)
  fix a c assume L: "linked seen s" and "a \<in> set [0..<length (heap_of s)]"
    and c: "c \<in> set (children_of (heap_of s ! a))"
  then have a: "a < length (heap_of s)" by simp
  from linked_child[OF L a c] show "c < a" by simp
qed

lemma linked_parents_above: "linked seen s \<Longrightarrow> parents_above (heap_of s)"
  unfolding parents_above_def
proof (intro ballI)
  fix a assume L: "linked seen s" and "a \<in> set [0..<length (heap_of s)]"
  then have a: "a < length (heap_of s)" by simp
  show "case parent_of (heap_of s ! a) of None \<Rightarrow> True
        | Some p \<Rightarrow> a < p \<and> p < length (heap_of s)"
  proof (cases "parent_of (heap_of s ! a)")
    case None
    then show ?thesis by simp
  next
    case (Some p)
    from linked_parent[OF L a Some] show ?thesis using Some by simp
  qed
qed

lemma linked_consistent: "linked seen s \<Longrightarrow> parent_child_consistent (heap_of s)"
  unfolding parent_child_consistent_def
proof (intro ballI)
  fix a c assume L: "linked seen s" and "a \<in> set [0..<length (heap_of s)]"
    and c: "c \<in> set (children_of (heap_of s ! a))"
  then have a: "a < length (heap_of s)" by simp
  from linked_child[OF L a c] have "c < a" "parent_of (heap_of s ! c) = Some a" by simp_all
  then show "c < length (heap_of s) \<and> parent_of (heap_of s ! c) = Some a" using a by simp
qed

lemma children_below_acyclic: "children_below st \<Longrightarrow> acyclic (child_relation st)"
proof -
  assume cb: "children_below st"
  have "child_relation st \<subseteq> {(c, a). c < a}"
    unfolding child_relation_def using children_belowD[OF cb] by blast
  moreover have "wf {(c::nat, a). c < a}" by (rule wf_less)
  ultimately show ?thesis using wf_subset wf_acyclic by blast
qed

lemma linked_root_parentless:
  assumes L: "linked seen s" and r: "nodeMap s rootId = Some root"
      and un: "\<And>k raw. (k, raw) \<in> set seen \<Longrightarrow> rootId \<notin> set (childIds raw)"
  shows "parent_of (heap_of s ! root) = None"
proof (rule ccontr)
  assume "parent_of (heap_of s ! root) \<noteq> None"
  then obtain p where p: "parent_of (heap_of s ! root) = Some p" by auto
  have lr: "root < length (heap_of s)" by (rule linked_bound[OF L r])
  from linked_parent[OF L lr p]
  have lp: "p < length (heap_of s)" and ch: "root \<in> set (children_of (heap_of s ! p))"
    by simp_all
  from linked_child[OF L lp ch]
  obtain k raw kc where prov: "(k, raw) \<in> set seen" "nodeMap s kc = Some root"
      "kc \<in> set (childIds raw)"
    by blast
  have "kc = rootId" using linked_inj[OF L prov(2) r] .
  then show False using un[OF prov(1)] prov(3) by simp
qed

lemma bottom_up_table_shape:
  "distinct (map fst bottom_up_table)" "no_self_listing bottom_up_table"
  "single_listing bottom_up_table" "unlisted bottom_up_table ''1''"
  by (simp_all add: bottom_up_table_def no_self_listing_def single_listing_def unlisted_def
        childIds_def raw_element_def)

lemma bottom_up_plain: "plain_ids bottom_up_table"
  by (simp add: bottom_up_table_def plain_ids_def inherited_names_def childIds_def
        raw_element_def)

lemma tangled_entries: "object_entries tangled_table = tangled_table"
  by (simp add: tangled_table_def entries_eval)

lemma tangled_build:
  "build_nodes tangled_table =
     \<lparr>heap_of = tangled_heap, nodeMap = [''0'' \<mapsto> 0, ''1'' \<mapsto> 1, ''2'' \<mapsto> 2],
      selectorMap = Map.empty, inheritedParent = Map.empty, foreignBase = 3,
      prototypeReplaced = False\<rparr>"
  unfolding build_nodes_def tangled_entries
  by (simp add: tangled_table_def tangled_heap_def build_eval numeral_2_eq_2)


section \<open>Raw tables without inherited names\<close>

text \<open>
  In a raw table in which no key and no listed child id is one of the twelve inherited
  names, no child id is found in the node map through the prototype chain, and no
  inherited object gets a \<open>parent\<close>. For such a table the specification is met: a root
  id that is absent from the table, or that resolves to a null record or to a text-node
  record, makes construction throw, whatever the root id is; and a root id that
  resolves to an element record gives a tree with an element root, which is the tree of
  the table with every child id that is not a key removed from the child-id lists.
\<close>

lemma plain_malformed_root_fails:
  assumes "distinct (map fst tbl)" and "plain_ids tbl"
      and "map_of tbl rootId = None \<or> map_of tbl rootId = Some RawNull
           \<or> (\<exists>t v. map_of tbl rootId = Some (RawText t v))"
  shows "constructDOMTree tbl rootId = Inl MalformedSnapshot"
  using assms(3) unfolding construct_outcome[OF assms(1,2)] by auto

lemma plain_dangling_reference_dropped:
  assumes "distinct (map fst tbl)" and "plain_ids tbl"
      and "map_of tbl rootId = Some (RawElem r)"
  shows "(\<exists>root sel st. constructDOMTree tbl rootId = Inr (root, sel, st)
            \<and> is_element_at st root)
       \<and> constructDOMTree tbl rootId = constructDOMTree (drop_dangling tbl) rootId
       \<and> (\<forall>k. k \<notin> fst ` set tbl \<longrightarrow> nodeMap (build_nodes tbl) k = None)"
proof -
  have "(rootId, RawElem r) \<in> set (object_entries tbl)"
    using assms(3) by (simp add: map_of_SomeD set_object_entries)
  from build_shape[OF distinct_object_entries[OF assms(1)] plain_ids_entries[OF assms(2)] this]
  obtain a where a: "a < length (heap_of (build_nodes tbl))"
      "nodeMap (build_nodes tbl) rootId = Some a" "is_element (heap_of (build_nodes tbl) ! a)"
    unfolding build_nodes_def by auto
  have "constructDOMTree tbl rootId
          = Inr (a, selectorMap (build_nodes tbl), heap_of (build_nodes tbl))"
    using assms(3) a(2) by (simp add: construct_outcome[OF assms(1,2)])
  moreover have "is_element_at (heap_of (build_nodes tbl)) a"
    using a by (simp add: is_element_at_def lookup_def)
  moreover have "\<forall>k. k \<notin> fst ` set tbl \<longrightarrow> nodeMap (build_nodes tbl) k = None"
    unfolding build_nodes_def using build_fresh[of _ "object_entries tbl"]
    by (simp add: set_object_entries)
  ultimately show ?thesis by (simp add: construct_drop_dangling[OF assms(2)])
qed

lemma dangling_plain: "plain_ids dangling_table"
  by (simp add: dangling_table_def plain_ids_def inherited_names_def childIds_def
        raw_element_def)

lemma dangling_construct:
  "constructDOMTree dangling_table ''1'' = Inr (1, [0 \<mapsto> 0], bottom_up_heap)
   \<and> drop_dangling dangling_table = bottom_up_table"
proof -
  have c: "constructDOMTree dangling_table ''1'' = Inr (1, [0 \<mapsto> 0], bottom_up_heap)"
    by (simp add: constructDOMTree_def read_nodeMap_def dangling_build)
       (simp add: bottom_up_heap_def scenario_eval)
  have dd: "drop_dangling dangling_table = bottom_up_table"
    by (simp add: drop_dangling_def dangling_table_def bottom_up_table_def prune_raw_def
          raw_element_def)
  show ?thesis using c dd by simp
qed

text \<open>The store of a construction never grows beyond the number of entries of the
  table, so that the reference of an inherited object is not the reference of a node.\<close>

lemma inherited_ref_outside:
  "lookup (heap_of (build_nodes tbl)) (inherited_ref (length tbl) name) = None"
proof -
  have "length (heap_of (build_nodes tbl)) \<le> length (object_entries tbl)"
    unfolding build_nodes_def
    using fold_process_length[of "object_entries tbl" "init_cstate (length tbl)"]
    by (simp add: init_cstate_def)
  moreover have "length (object_entries tbl) = length tbl"
    by (simp add: object_entries_def sum_length_filter_compl)
  ultimately show ?thesis by (simp add: lookup_def inherited_ref_def)
qed

text \<open>Two inherited names read two objects.\<close>

lemma position_inj:
  "x \<in> set xs \<Longrightarrow> y \<in> set xs \<Longrightarrow> position x xs = position y xs \<Longrightarrow> x = y"
  by (induction xs) (auto split: if_splits)

lemma inherited_ref_inj:
  assumes "b \<in> set inherited_names" and "b' \<in> set inherited_names"
      and "inherited_ref base b = inherited_ref base b'"
  shows "b = b'"
  using assms position_inj[of b inherited_names b'] by (simp add: inherited_ref_def)

lemma build_base: "foreignBase (build_nodes tbl) = length tbl"
proof -
  have "foreignBase (fold process_entry es s) = foreignBase s" for es s
  proof (induction es arbitrary: s)
    case Nil
    then show ?case by simp
  next
    case (Cons e es)
    then show ?case by (cases e) (simp add: process_entry_base)
  qed
  then show ?thesis by (simp add: build_nodes_def init_cstate_def)
qed

text \<open>The three tables with inherited names, evaluated.\<close>

lemma inherited_child_build:
  "build_nodes inherited_child_table =
     \<lparr>heap_of = inherited_child_heap, nodeMap = [''0'' \<mapsto> 0], selectorMap = Map.empty,
      inheritedParent = [''constructor'' \<mapsto> 0], foreignBase = 1, prototypeReplaced = False\<rparr>"
  unfolding build_nodes_def
  by (simp add: inherited_child_table_def inherited_child_heap_def entries_eval build_eval)

lemma proto_child_build:
  "build_nodes proto_child_table =
     \<lparr>heap_of = proto_child_heap, nodeMap = [''0'' \<mapsto> 0], selectorMap = Map.empty,
      inheritedParent = [''__proto__'' \<mapsto> 0], foreignBase = 1, prototypeReplaced = False\<rparr>"
  unfolding build_nodes_def
  by (simp add: proto_child_table_def proto_child_heap_def entries_eval build_eval)

lemma proto_parent_build:
  "build_nodes proto_parent_table =
     \<lparr>heap_of = proto_parent_heap, nodeMap = [''0'' \<mapsto> 0, ''1'' \<mapsto> 1],
      selectorMap = Map.empty, inheritedParent = [''__proto__'' \<mapsto> 0], foreignBase = 2,
      prototypeReplaced = False\<rparr>"
  unfolding build_nodes_def
  by (simp add: proto_parent_table_def proto_parent_heap_def entries_eval build_eval
        numeral_2_eq_2)

text \<open>
  In the third table no record lists its own id, no id is listed twice and the root id
  is not listed. The body gives \<open>Object.prototype\<close> the property \<open>parent\<close>; the \<open>div\<close>
  then finds \<open>parent\<close> in the node map, reads the body there and makes itself the
  parent of the body, which is the root.
\<close>

lemma proto_parent_construct:
  "distinct (map fst proto_parent_table) \<and> no_self_listing proto_parent_table
   \<and> single_listing proto_parent_table \<and> unlisted proto_parent_table ''0''
   \<and> \<not> plain_ids proto_parent_table
   \<and> constructDOMTree proto_parent_table ''0'' = Inr (0, Map.empty, proto_parent_heap)
   \<and> parent_of (proto_parent_heap ! 0) = Some 1
   \<and> children_of (proto_parent_heap ! 1) = [0]"
proof -
  have sh: "distinct (map fst proto_parent_table)" "no_self_listing proto_parent_table"
    "single_listing proto_parent_table" "unlisted proto_parent_table ''0''"
    by (simp_all add: proto_parent_table_def no_self_listing_def single_listing_def
          unlisted_def childIds_def raw_element_def)
  have np: "\<not> plain_ids proto_parent_table"
    by (simp add: proto_parent_table_def plain_ids_def inherited_names_def childIds_def
          raw_element_def)
  have c: "constructDOMTree proto_parent_table ''0'' = Inr (0, Map.empty, proto_parent_heap)"
    by (simp add: constructDOMTree_def read_nodeMap_def proto_parent_build)
       (simp add: proto_parent_heap_def scenario_eval)
  have f: "parent_of (proto_parent_heap ! 0) = Some 1" "children_of (proto_parent_heap ! 1) = [0]"
    by (simp_all add: proto_parent_heap_def element_node_def)
  show ?thesis using sh np c f by simp
qed

section \<open>Claim C1\<close>

text \<open>
  C1, as the code has it. The table of the scenario gives the body the id \<open>0\<close> and the
  button the id \<open>1\<close>; \<open>Object.entries\<close> enumerates \<open>0\<close> first, and at that moment the
  node map does not hold \<open>1\<close>, so the reference to the button is skipped. Construction
  returns the body with no children and the selector map \<open>{0: button}\<close>, whose button has
  no parent; collecting from the root returns the empty list; the history record of the
  button has an empty branch path and the lookup in the tree returns not-found. With the
  ids the other way round (the button \<open>0\<close>, the body \<open>1\<close> with children \<open>[0]\<close>, root id
  \<open>1\<close>) the results are those of the scenario: the body has the button as its one child,
  the selector map is \<open>{0: button}\<close>, collecting returns the button, and the lookup of its
  history record returns the button.
\<close>

theorem C1_scenario_as_built:
  "constructDOMTree scenario_table ''0'' = Inr (0, [0 \<mapsto> 1], scenario_heap)
   \<and> children_of (scenario_heap ! 0) = []
   \<and> getClickableElements (Suc n) scenario_heap 0 = Inr []
   \<and> convertDomElementToHistoryElement (Suc k) scenario_heap 1 = Inr (button_record [])
   \<and> findHistoryElementInTree (Suc m) H scenario_heap (button_record []) 0 = Inr None
   \<and> constructDOMTree bottom_up_table ''1'' = Inr (1, [0 \<mapsto> 0], bottom_up_heap)
   \<and> children_of (bottom_up_heap ! 1) = [0]
   \<and> getClickableElements (Suc (Suc n)) bottom_up_heap 1 = Inr [0]
   \<and> convertDomElementToHistoryElement (Suc (Suc k)) bottom_up_heap 0 = Inr (button_record [''button''])
   \<and> findHistoryElementInTree (Suc (Suc m)) H bottom_up_heap (button_record [''button'']) 1 = Inr (Some 0)"
proof -
  have a: "children_of (scenario_heap ! 0) = []"
    by (simp add: scenario_heap_def scenario_eval)
  have b: "getClickableElements (Suc n) scenario_heap 0 = Inr []"
    by (simp add: scenario_heap_def scenario_eval)
  have c: "convertDomElementToHistoryElement (Suc k) scenario_heap 1 = Inr (button_record [])"
    by (simp add: convertDomElementToHistoryElement_def priv_getParentBranchPath_def
          scenario_heap_def scenario_eval)
  have d: "findHistoryElementInTree (Suc m) H scenario_heap (button_record []) 0 = Inr None"
    by (simp add: findHistoryElementInTree_def node_matches_def scenario_heap_def scenario_eval)
  have e: "children_of (bottom_up_heap ! 1) = [0]"
    by (simp add: bottom_up_heap_def scenario_eval)
  have f: "getClickableElements (Suc (Suc n)) bottom_up_heap 1 = Inr [0]"
    by (simp add: bottom_up_heap_def scenario_eval)
  have g: "convertDomElementToHistoryElement (Suc (Suc k)) bottom_up_heap 0
             = Inr (button_record [''button''])"
    by (simp add: convertDomElementToHistoryElement_def priv_getParentBranchPath_def
          bottom_up_heap_def scenario_eval)
  have h: "findHistoryElementInTree (Suc (Suc m)) H bottom_up_heap (button_record [''button'']) 1
             = Inr (Some 0)"
    by (simp add: findHistoryElementInTree_def hash_eval bottom_up_heap_def scenario_eval)
  show ?thesis
    using scenario_construct bottom_up_construct a b c d e f g h by simp
qed


text \<open>
  C1 as stated fails on the table of the scenario: the root's children are not the
  button, collecting does not return the button, and the lookup does not return it.
\<close>

theorem C1_scenario_counterexample:
  "constructDOMTree scenario_table ''0'' = Inr (0, [0 \<mapsto> 1], scenario_heap)
   \<and> children_of (scenario_heap ! 0) \<noteq> [1]
   \<and> getClickableElements 2 scenario_heap 0 \<noteq> Inr [1]
   \<and> convertDomElementToHistoryElement 2 scenario_heap 1 = Inr (button_record [])
   \<and> findHistoryElementInTree 2 id scenario_heap (button_record []) 0 \<noteq> Inr (Some 1)"
proof -
  have a: "children_of (scenario_heap ! 0) \<noteq> [1]"
    by (simp add: scenario_heap_def scenario_eval)
  have b: "getClickableElements 2 scenario_heap 0 \<noteq> Inr [1]"
    by (simp add: numeral_2_eq_2 scenario_heap_def scenario_eval)
  have c: "convertDomElementToHistoryElement 2 scenario_heap 1 = Inr (button_record [])"
    by (simp add: numeral_2_eq_2 convertDomElementToHistoryElement_def priv_getParentBranchPath_def
          scenario_heap_def scenario_eval)
  have d: "findHistoryElementInTree 2 id scenario_heap (button_record []) 0 \<noteq> Inr (Some 1)"
    by (simp add: numeral_2_eq_2 findHistoryElementInTree_def node_matches_def
          scenario_heap_def scenario_eval)
  show ?thesis using scenario_construct a b c d by simp
qed


section \<open>Claim C2\<close>

text \<open>
  C2. On a store of the shape construction builds, with fuel for the whole store,
  \<open>findHistoryElementInTree\<close> hashes the history record once and returns the first node of
  the pre-order, depth-first sequence of element nodes under the root (the root included)
  that carries a highlight index and whose branch-path, attributes and xpath hashes all
  equal those of the record. A node it returns is such a node; it returns the not-found
  value exactly when no node of the sequence is a match. The pre-order sequence is the
  whole one: it does not depend on the fuel.
\<close>

theorem C2_first_match_in_preorder:
  assumes "children_below st" and "parents_above st"
      and "root < length st" and "is_element_at st root" and "length st \<le> fuel"
  shows "findHistoryElementInTree fuel H st h root =
           Inr (List.find (is_match fuel H st (priv_hashDomHistoryElement H h)) (preorder fuel st root))
       \<and> (\<forall>x. findHistoryElementInTree fuel H st h root = Inr (Some x) \<longrightarrow>
              x \<in> set (preorder fuel st root) \<and> highlighted st x \<and>
              (\<exists>hx. priv_hashDomElement fuel H st x = Inr hx \<and>
                    branchPathHash hx = branchPathHash (priv_hashDomHistoryElement H h) \<and>
                    attributesHash hx = attributesHash (priv_hashDomHistoryElement H h) \<and>
                    xpathHash hx = xpathHash (priv_hashDomHistoryElement H h)))
       \<and> (findHistoryElementInTree fuel H st h root = Inr None \<longleftrightarrow>
            (\<forall>x\<in>set (preorder fuel st root). \<not> is_match fuel H st (priv_hashDomHistoryElement H h) x))
       \<and> preorder fuel st root = preorder (Suc root) st root"
proof -
  let ?hh = "priv_hashDomHistoryElement H h"
  have lt: "root < fuel" using assms(3,5) by simp
  have eq: "findHistoryElementInTree fuel H st h root =
           Inr (List.find (is_match fuel H st ?hh) (preorder fuel st root))"
    unfolding findHistoryElementInTree_def Let_def
    by (rule processNode_preorder[OF assms(1,2,5,3,4) lt])
  have some: "\<forall>x. findHistoryElementInTree fuel H st h root = Inr (Some x) \<longrightarrow>
              x \<in> set (preorder fuel st root) \<and> highlighted st x \<and>
              (\<exists>hx. priv_hashDomElement fuel H st x = Inr hx \<and>
                    branchPathHash hx = branchPathHash ?hh \<and>
                    attributesHash hx = attributesHash ?hh \<and>
                    xpathHash hx = xpathHash ?hh)"
  proof (intro allI impI)
    fix x assume "findHistoryElementInTree fuel H st h root = Inr (Some x)"
    then have "List.find (is_match fuel H st ?hh) (preorder fuel st root) = Some x"
      using eq by simp
    then have "x \<in> set (preorder fuel st root)" "is_match fuel H st ?hh x"
      by (auto simp: find_Some_iff)
    then show "x \<in> set (preorder fuel st root) \<and> highlighted st x \<and>
              (\<exists>hx. priv_hashDomElement fuel H st x = Inr hx \<and>
                    branchPathHash hx = branchPathHash ?hh \<and>
                    attributesHash hx = attributesHash ?hh \<and>
                    xpathHash hx = xpathHash ?hh)"
      by (cases "priv_hashDomElement fuel H st x") (simp_all add: is_match_def hashes_equal_def)
  qed
  have none: "findHistoryElementInTree fuel H st h root = Inr None \<longleftrightarrow>
            (\<forall>x\<in>set (preorder fuel st root). \<not> is_match fuel H st ?hh x)"
    using eq by (auto simp: find_None_iff)
  have "preorder fuel st root = preorder (Suc root) st root"
    by (rule preorder_enough[OF assms(1) lt]) simp
  then show ?thesis using eq some none by blast
qed


theorem C2_witness:
  "children_below bottom_up_heap \<and> parents_above bottom_up_heap
   \<and> 1 < length bottom_up_heap \<and> is_element_at bottom_up_heap 1 \<and> length bottom_up_heap \<le> 2
   \<and> preorder 2 bottom_up_heap 1 = [1, 0]
   \<and> findHistoryElementInTree 2 id bottom_up_heap (button_record [''button'']) 1 = Inr (Some 0)"
proof -
  have pre: "preorder 2 bottom_up_heap 1 = [1, 0]"
    by (simp add: numeral_2_eq_2 bottom_up_heap_def scenario_eval)
  have m1: "\<not> is_match 2 id bottom_up_heap (priv_hashDomHistoryElement id (button_record [''button''])) 1"
    by (simp add: is_match_def bottom_up_heap_def scenario_eval)
  have m0: "is_match 2 id bottom_up_heap (priv_hashDomHistoryElement id (button_record [''button''])) 0"
    by (simp add: numeral_2_eq_2 hash_eval bottom_up_heap_def scenario_eval)
  show ?thesis
    using C2_first_match_in_preorder[OF bottom_up_shape, of id "button_record [''button'']"]
      bottom_up_shape pre m1 m0
    by simp
qed


section \<open>Claim C3\<close>

text \<open>
  C3. For an element node of a store of the shape construction builds, with fuel for
  the whole store: \<open>convertDomElementToHistoryElement\<close> returns a record; serializing it to
  JSON and reading it back gives a record; \<open>compareHistoryElementAndDomElement\<close> of that
  record and the element is true; and the record's stored branch path, attributes and
  xpath hash to the three components computed from the live element.
\<close>

theorem C3_history_record_round_trip:
  assumes "parents_above st" and "a < length st" and "length st \<le> fuel"
      and "st ! a = Element e"
  shows "\<exists>h h' hashed.
           convertDomElementToHistoryElement fuel st a = Inr h
         \<and> json_to_history (history_to_json h) = Some h'
         \<and> compareHistoryElementAndDomElement fuel H st h' a = Inr True
         \<and> priv_hashDomElement fuel H st a = Inr hashed
         \<and> priv_parentBranchPathHash H (entireParentBranchPath h') = branchPathHash hashed
         \<and> priv_attributesHash H (h_attributes h') = attributesHash hashed
         \<and> priv_xpathHash H (h_xpath h') = xpathHash hashed"
proof -
  let ?path = "map (tag_at st) (tl (rev (chain_up fuel st a)))"
  let ?h = "\<lparr>h_tagName = tagName e, h_xpath = xpath e, h_highlightIndex = highlightIndex e,
             entireParentBranchPath = ?path, h_attributes = attributes e,
             h_shadowRoot = shadowRoot e, cssSelector = None,
             h_pageCoordinates = pageCoordinates e,
             h_viewportCoordinates = viewportCoordinates e,
             h_viewportInfo = viewportInfo e\<rparr>"
  let ?h' = "?h\<lparr>h_attributes := object_entries (h_attributes ?h)\<rparr>"
  let ?hashed = "\<lparr>branchPathHash = priv_parentBranchPathHash H ?path,
                  attributesHash = priv_attributesHash H (attributes e),
                  xpathHash = priv_xpathHash H (xpath e)\<rparr>"
  have conv: "convertDomElementToHistoryElement fuel st a = Inr ?h"
    using branch_path_total[OF assms(1,2,3)] assms(2,4)
    by (simp add: convertDomElementToHistoryElement_def lookup_valid)
  have json: "json_to_history (history_to_json ?h) = Some ?h'"
    by (rule json_roundtrip)
  have hash: "priv_hashDomElement fuel H st a = Inr ?hashed"
    by (rule hash_total[OF assms])
  have attr: "priv_attributesHash H (h_attributes ?h') = priv_attributesHash H (attributes e)"
    by (simp add: priv_attributesHash_def attributesString_entries)
  have cmp: "compareHistoryElementAndDomElement fuel H st ?h' a = Inr True"
    using hash attr
    by (simp add: compareHistoryElementAndDomElement_def priv_hashDomHistoryElement_def
          hashes_equal_def)
  show ?thesis
    using conv json cmp hash attr by (intro exI[of _ ?h] exI[of _ ?h'] exI[of _ ?hashed]) simp
qed

theorem C3_witness:
  "parents_above bottom_up_heap \<and> 0 < length bottom_up_heap \<and> length bottom_up_heap \<le> 2
   \<and> convertDomElementToHistoryElement 2 bottom_up_heap 0 = Inr (button_record [''button''])
   \<and> json_to_history (history_to_json (button_record [''button''])) = Some (button_record [''button''])
   \<and> compareHistoryElementAndDomElement 2 id bottom_up_heap (button_record [''button'']) 0 = Inr True"
proof -
  have el: "bottom_up_heap ! 0 =
      element_node ''button'' ''/html/body/button'' [(''id'', ''go'')] [] (Some 0) True (Some 1)"
    by (simp add: bottom_up_heap_def)
  have c: "convertDomElementToHistoryElement 2 bottom_up_heap 0 = Inr (button_record [''button''])"
    by (simp add: numeral_2_eq_2 convertDomElementToHistoryElement_def priv_getParentBranchPath_def
          bottom_up_heap_def scenario_eval)
  obtain h h' where h: "convertDomElementToHistoryElement 2 bottom_up_heap 0 = Inr h"
      and j: "json_to_history (history_to_json h) = Some h'"
      and m: "compareHistoryElementAndDomElement 2 id bottom_up_heap h' 0 = Inr True"
    using C3_history_record_round_trip[OF bottom_up_shape(2) _ bottom_up_shape(5)
            el[unfolded element_node_def], of id]
    by (auto simp: bottom_up_heap_def)
  have hb: "h = button_record [''button'']" using h c by simp
  have "object_entries [(''id'', ''go'')] = [(''id'', ''go'')]"
    by (simp add: entries_eval)
  then have "json_to_history (history_to_json (button_record [''button'']))
               = Some (button_record [''button''])"
    by (simp add: json_roundtrip button_record_def)
  then have "h' = button_record [''button'']" using j hb by simp
  then show ?thesis using c m hb j bottom_up_shape by auto
qed


section \<open>Claim C4\<close>

text \<open>
  C4 on the code. The table holds the one record \<open>0\<close>, a body whose child-id list is
  \<open>[__proto__]\<close>, and the root id is \<open>parent\<close>, which is absent from the table. The
  inner loop finds \<open>__proto__\<close> in the node map through the prototype chain and assigns
  the body to the property \<open>parent\<close> of \<open>Object.prototype\<close>. The root lookup
  \<open>nodeMap[parent]\<close> then reads that property, the body, which has a \<open>tagName\<close>:
  construction throws nothing and returns the body as the root, where C4 says that it
  fails.
\<close>

theorem C4_absent_root_resolved_by_prototype:
  "map_of proto_child_table ''parent'' = None
   \<and> nodeMap (build_nodes proto_child_table) ''parent'' = None
   \<and> inheritedParent (build_nodes proto_child_table) ''__proto__'' = Some 0
   \<and> read_nodeMap (build_nodes proto_child_table) ''parent'' = Some (StoredNode 0)
   \<and> constructDOMTree proto_child_table ''parent'' = Inr (0, Map.empty, proto_child_heap)
   \<and> tag_of (proto_child_heap ! 0) = ''body''
   \<and> constructDOMTree proto_child_table ''parent'' \<noteq> Inl MalformedSnapshot"
proof -
  have a: "map_of proto_child_table ''parent'' = None"
    by (simp add: proto_child_table_def)
  have r: "read_nodeMap (build_nodes proto_child_table) ''parent'' = Some (StoredNode 0)"
    by (simp add: proto_child_build read_nodeMap_def inherited_names_def)
  have c: "constructDOMTree proto_child_table ''parent'' = Inr (0, Map.empty, proto_child_heap)"
    by (simp add: constructDOMTree_def read_nodeMap_def inherited_names_def proto_child_build)
       (simp add: proto_child_heap_def scenario_eval)
  have t: "tag_of (proto_child_heap ! 0) = ''body''"
    by (simp add: proto_child_heap_def scenario_eval)
  show ?thesis using a r c t by (simp add: proto_child_build)
qed

section \<open>Claim C5\<close>

text \<open>
  C5 on the code. The table holds the one record \<open>0\<close>, a body whose child-id list is
  \<open>[constructor]\<close>, an id that is absent from the table; the root id is \<open>0\<close>. The test
  \<open>childId in nodeMap\<close> is true through the prototype chain, so the reference is not
  dropped: the function \<open>Object\<close> gets the body as its \<open>parent\<close> and is pushed onto the
  children of the body. Construction succeeds, and the tree it returns is not the tree of
  the table without the dangling id: its root has a child, and that child is no node.
\<close>

theorem C5_inherited_name_linked:
  "map_of inherited_child_table ''constructor'' = None
   \<and> nodeMap (build_nodes inherited_child_table) ''constructor'' = None
   \<and> constructDOMTree inherited_child_table ''0'' = Inr (0, Map.empty, inherited_child_heap)
   \<and> children_of (inherited_child_heap ! 0) = [inherited_ref 1 ''constructor'']
   \<and> lookup inherited_child_heap (inherited_ref 1 ''constructor'') = None
   \<and> inheritedParent (build_nodes inherited_child_table) ''constructor'' = Some 0
   \<and> constructDOMTree (drop_dangling inherited_child_table) ''0''
       = Inr (0, Map.empty, [element_node ''body'' ''/html/body'' [] [] None False None])
   \<and> constructDOMTree (drop_dangling inherited_child_table) ''0''
       \<noteq> constructDOMTree inherited_child_table ''0''"
proof -
  have a: "map_of inherited_child_table ''constructor'' = None"
    by (simp add: inherited_child_table_def)
  have c: "constructDOMTree inherited_child_table ''0''
             = Inr (0, Map.empty, inherited_child_heap)"
    by (simp add: constructDOMTree_def read_nodeMap_def inherited_child_build)
       (simp add: inherited_child_heap_def scenario_eval)
  have ch: "children_of (inherited_child_heap ! 0) = [inherited_ref 1 ''constructor'']"
    by (simp add: inherited_child_heap_def scenario_eval)
  have lk: "lookup inherited_child_heap (inherited_ref 1 ''constructor'') = None"
    by (simp add: inherited_child_heap_def lookup_def inherited_ref_def inherited_names_def)
  have dd: "drop_dangling inherited_child_table
              = [(''0'', raw_element ''body'' ''/html/body'' [] [] None None)]"
    by (simp add: drop_dangling_def inherited_child_table_def prune_raw_def raw_element_def)
  have d: "constructDOMTree (drop_dangling inherited_child_table) ''0''
       = Inr (0, Map.empty, [element_node ''body'' ''/html/body'' [] [] None False None])"
    unfolding dd
    by (simp add: constructDOMTree_def build_nodes_def entries_eval build_eval lookup_def)
  have ne: "constructDOMTree (drop_dangling inherited_child_table) ''0''
       \<noteq> constructDOMTree inherited_child_table ''0''"
    unfolding c d by (simp add: inherited_child_heap_def element_node_def inherited_ref_def)
  show ?thesis using a c ch lk d ne by (simp add: inherited_child_build)
qed

section \<open>Claim C6\<close>

text \<open>
  C6, as the code has it. The loop of \<open>_getParentBranchPath\<close> collects the current
  element only while it has a parent, so the node without a parent, the root, is never
  collected. On a store of the shape construction builds, with fuel for the whole store,
  the branch path of an element is the list of tag names along the parent links in
  root-to-element order without the root's own tag (\<open>chain_up\<close> runs from the element up
  to the node without a parent; the path drops the head of its reverse); the element's own
  tag is the last entry and the path of a parentless element is empty. The history record
  stores that list as \<open>entireParentBranchPath\<close>, and \<open>branchPathHash\<close> is the hash of that
  list joined with \<open>/\<close>.
\<close>

theorem C6_branch_path_below_root:
  assumes "parents_above st" and "a < length st" and "length st \<le> fuel"
      and "st ! a = Element e"
  shows "priv_getParentBranchPath fuel st a =
           Inr (map (tag_at st) (tl (rev (chain_up fuel st a))))
       \<and> last (chain_up fuel st a) < length st
       \<and> parent_of (st ! last (chain_up fuel st a)) = None
       \<and> (\<exists>h. convertDomElementToHistoryElement fuel st a = Inr h \<and>
               entireParentBranchPath h = map (tag_at st) (tl (rev (chain_up fuel st a))))
       \<and> (\<exists>hashed. priv_hashDomElement fuel H st a = Inr hashed \<and>
               branchPathHash hashed =
                 H (join ''/'' (map (tag_at st) (tl (rev (chain_up fuel st a))))))"
proof -
  have path: "priv_getParentBranchPath fuel st a =
           Inr (map (tag_at st) (tl (rev (chain_up fuel st a))))"
    by (rule branch_path_total[OF assms(1,2,3)])
  have root: "last (chain_up fuel st a) < length st \<and>
              parent_of (st ! last (chain_up fuel st a)) = None"
    using chain_up_last_root[OF assms(1,2), of fuel] assms(3) by simp
  have conv: "\<exists>h. convertDomElementToHistoryElement fuel st a = Inr h \<and>
               entireParentBranchPath h = map (tag_at st) (tl (rev (chain_up fuel st a)))"
    using path assms(2,4) by (simp add: convertDomElementToHistoryElement_def lookup_valid)
  have hash: "\<exists>hashed. priv_hashDomElement fuel H st a = Inr hashed \<and>
               branchPathHash hashed =
                 H (join ''/'' (map (tag_at st) (tl (rev (chain_up fuel st a)))))"
    using hash_total[OF assms, of H]
    by (simp add: priv_parentBranchPathHash_def priv_hashString_def)
  show ?thesis using path root conv hash by blast
qed

theorem C6_witness:
  "parents_above bottom_up_heap \<and> 0 < length bottom_up_heap \<and> length bottom_up_heap \<le> 2
   \<and> priv_getParentBranchPath 2 bottom_up_heap 0 = Inr [''button'']
   \<and> chain_up 2 bottom_up_heap 0 = [0, 1]
   \<and> parent_of (bottom_up_heap ! 1) = None"
proof -
  have el: "bottom_up_heap ! 0 =
      element_node ''button'' ''/html/body/button'' [(''id'', ''go'')] [] (Some 0) True (Some 1)"
    by (simp add: bottom_up_heap_def)
  have ch: "chain_up 2 bottom_up_heap 0 = [0, 1]"
    by (simp add: numeral_2_eq_2 bottom_up_heap_def scenario_eval)
  show ?thesis
    using C6_branch_path_below_root[OF bottom_up_shape(2) _ bottom_up_shape(5) el[unfolded element_node_def], of id]
      bottom_up_shape ch
    by (simp add: bottom_up_heap_def scenario_eval)
qed


text \<open>
  C6 as stated fails for the button under the body: the tag names from the root down to
  the element are \<open>body, button\<close>; the stored branch path is \<open>button\<close> alone.
\<close>

theorem C6_counterexample:
  "convertDomElementToHistoryElement 2 bottom_up_heap 0 = Inr (button_record [''button''])
   \<and> map (tag_at bottom_up_heap) (rev (chain_up 2 bottom_up_heap 0)) = [''body'', ''button'']
   \<and> parent_of (bottom_up_heap ! hd (rev (chain_up 2 bottom_up_heap 0))) = None
   \<and> entireParentBranchPath (button_record [''button''])
         \<noteq> map (tag_at bottom_up_heap) (rev (chain_up 2 bottom_up_heap 0))"
  by (simp add: numeral_2_eq_2 convertDomElementToHistoryElement_def priv_getParentBranchPath_def
        bottom_up_heap_def scenario_eval)


section \<open>Claim C7\<close>

text \<open>
  C7, as the code has it. The attributes hash is the hash of the concatenation of
  \<open>key=value\<close> over the pairs in the enumeration order of \<open>Object.entries\<close>, with no
  separator between pairs; that is what \<open>_hashDomElement\<close> stores for an element. For two
  attribute objects with the same pairs, whose keys hold no \<open>=\<close>, enumerated in different
  orders, the hash inputs differ, and the hashes differ when the hash primitive does not
  collide on these two inputs.
\<close>

theorem C7_attributes_hash_in_iteration_order:
  "priv_attributesHash H attrs
     = H (concat (map (\<lambda>kv. fst kv @ ''='' @ snd kv) (object_entries attrs)))
   \<and> (priv_hashDomElement fuel H st x = Inr hashed \<and> lookup st x = Some (Element e) \<longrightarrow>
        attributesHash hashed
          = H (concat (map (\<lambda>kv. fst kv @ ''='' @ snd kv) (object_entries (attributes e)))))
   \<and> (distinct (map fst a) \<and> distinct (map fst b) \<and> set a = set b
        \<and> (\<forall>kv\<in>set a. CHR ''='' \<notin> set (fst kv))
        \<and> object_entries a \<noteq> object_entries b \<longrightarrow>
        attributesString a \<noteq> attributesString b
        \<and> (inj_on H {attributesString a, attributesString b} \<longrightarrow>
             priv_attributesHash H a \<noteq> priv_attributesHash H b))"
proof (intro conjI impI)
  show "priv_attributesHash H attrs
     = H (concat (map (\<lambda>kv. fst kv @ ''='' @ snd kv) (object_entries attrs)))"
    by (simp add: priv_attributesHash_def priv_hashString_def attributesString_def)
next
  assume "priv_hashDomElement fuel H st x = Inr hashed \<and> lookup st x = Some (Element e)"
  then show "attributesHash hashed
          = H (concat (map (\<lambda>kv. fst kv @ ''='' @ snd kv) (object_entries (attributes e))))"
    by (auto simp: priv_hashDomElement_def priv_attributesHash_def priv_hashString_def
          attributesString_def split: sum.splits)
next
  assume h: "distinct (map fst a) \<and> distinct (map fst b) \<and> set a = set b
        \<and> (\<forall>kv\<in>set a. CHR ''='' \<notin> set (fst kv))
        \<and> object_entries a \<noteq> object_entries b"
  show ne: "attributesString a \<noteq> attributesString b"
  proof
    assume "attributesString a = attributesString b"
    then have "object_entries a = object_entries b"
      unfolding attributesString_def
      using h by (intro concat_pairs_inj) (simp_all add: set_object_entries distinct_object_entries)
    then show False using h by simp
  qed
  assume "inj_on H {attributesString a, attributesString b}"
  then show "priv_attributesHash H a \<noteq> priv_attributesHash H b"
    using ne by (auto simp: priv_attributesHash_def priv_hashString_def inj_on_def)
qed

theorem C7_witness:
  "distinct (map fst attrs_id_class) \<and> distinct (map fst attrs_class_id)
   \<and> set attrs_id_class = set attrs_class_id
   \<and> list_all (\<lambda>kv. CHR ''='' \<notin> set (fst kv)) attrs_id_class
   \<and> object_entries attrs_id_class \<noteq> object_entries attrs_class_id
   \<and> inj_on id {attributesString attrs_id_class, attributesString attrs_class_id}
   \<and> attributesString attrs_id_class \<noteq> attributesString attrs_class_id
   \<and> priv_attributesHash id attrs_id_class \<noteq> priv_attributesHash id attrs_class_id
   \<and> priv_hashDomElement 2 id bottom_up_heap 0
        = Inr \<lparr>branchPathHash = ''button'', attributesHash = ''id=go'',
               xpathHash = ''/html/body/button''\<rparr>
   \<and> lookup bottom_up_heap 0
        = Some (element_node ''button'' ''/html/body/button'' [(''id'', ''go'')] [] (Some 0) True (Some 1))
   \<and> attributesHash \<lparr>branchPathHash = ''button'', attributesHash = ''id=go'',
                        xpathHash = ''/html/body/button''\<rparr>
        = concat (map (\<lambda>kv. fst kv @ ''='' @ snd kv) (object_entries [(''id'', ''go'')]))"
proof -
  have h: "distinct (map fst attrs_id_class) \<and> distinct (map fst attrs_class_id)
   \<and> set attrs_id_class = set attrs_class_id
   \<and> (\<forall>kv\<in>set attrs_id_class. CHR ''='' \<notin> set (fst kv))
   \<and> object_entries attrs_id_class \<noteq> object_entries attrs_class_id"
    unfolding attrs_entries by (auto simp: attrs_id_class_def attrs_class_id_def)
  have i: "inj_on id {attributesString attrs_id_class, attributesString attrs_class_id}"
    by simp
  have hs: "priv_hashDomElement 2 id bottom_up_heap 0
        = Inr \<lparr>branchPathHash = ''button'', attributesHash = ''id=go'',
               xpathHash = ''/html/body/button''\<rparr>"
    by (simp add: numeral_2_eq_2 hash_eval attributesString_def entries_eval join.simps
          bottom_up_heap_def scenario_eval)
  have lk: "lookup bottom_up_heap 0
        = Some (element_node ''button'' ''/html/body/button'' [(''id'', ''go'')] [] (Some 0) True (Some 1))"
    by (simp add: bottom_up_heap_def lookup_def)
  note inst = C7_attributes_hash_in_iteration_order[of id attrs_id_class 2 bottom_up_heap 0
      "\<lparr>branchPathHash = ''button'', attributesHash = ''id=go'', xpathHash = ''/html/body/button''\<rparr>"
      "\<lparr>isVisible = False, parent = Some 1, tagName = ''button'', xpath = ''/html/body/button'',
        attributes = [(''id'', ''go'')], children = [], isInteractive = True,
        isTopElement = False, isInViewport = False, shadowRoot = False,
        highlightIndex = Some 0, viewportCoordinates = None, pageCoordinates = None,
        viewportInfo = None\<rparr>"
      attrs_id_class attrs_class_id]
  have a: "attributesString attrs_id_class \<noteq> attributesString attrs_class_id
   \<and> priv_attributesHash id attrs_id_class \<noteq> priv_attributesHash id attrs_class_id"
    using inst h i by blast
  have b: "attributesHash \<lparr>branchPathHash = ''button'', attributesHash = ''id=go'',
                        xpathHash = ''/html/body/button''\<rparr>
        = concat (map (\<lambda>kv. fst kv @ ''='' @ snd kv) (object_entries [(''id'', ''go'')]))"
    using inst hs lk[unfolded element_node_def] by simp
  show ?thesis using h i a b hs lk by (simp add: list_all_iff)
qed

text \<open>
  C7 as stated fails where a key holds \<open>=\<close>: the pairs \<open>a\<close> with the empty value and
  \<open>a=a\<close> with the empty value give the string \<open>a=a=a=\<close> in either order, hence the same
  hash whatever the hash primitive.
\<close>

theorem C7_counterexample:
  "distinct (map fst attrs_forward) \<and> distinct (map fst attrs_backward)
   \<and> set attrs_forward = set attrs_backward
   \<and> object_entries attrs_forward \<noteq> object_entries attrs_backward
   \<and> attributesString attrs_forward = attributesString attrs_backward
   \<and> (\<forall>H. priv_attributesHash H attrs_forward = priv_attributesHash H attrs_backward)"
proof -
  have "attributesString attrs_forward = attributesString attrs_backward"
    unfolding attributesString_def attrs_entries
    by (simp add: attrs_forward_def attrs_backward_def)
  moreover have "distinct (map fst attrs_forward) \<and> distinct (map fst attrs_backward)
   \<and> set attrs_forward = set attrs_backward
   \<and> object_entries attrs_forward \<noteq> object_entries attrs_backward"
    unfolding attrs_entries by (auto simp: attrs_forward_def attrs_backward_def)
  ultimately show ?thesis by (simp add: priv_attributesHash_def)
qed


section \<open>Claim C8\<close>

text \<open>
  C8, as the code has it. \<open>hashDomElement\<close> does not return the composite string: it
  hashes it once more. On a store of the shape construction builds, with fuel for the
  whole store, collecting returns the highlighted proper descendants of the root in
  pre-order, and \<open>getClickableElementsHashes\<close> is the set of the hashes of the composite
  strings \<open>branchPathHash-attributesHash-xpathHash\<close>, one per collected element.
\<close>

theorem C8_hash_set_of_hashed_composites:
  assumes "children_below st" and "parents_above st"
      and "root < length st" and "is_element_at st root" and "length st \<le> fuel"
  shows "\<exists>xs. getClickableElements fuel st root = Inr xs
            \<and> xs = filter (highlighted st) (tl (preorder fuel st root))
            \<and> getClickableElementsHashes fuel H st root =
                 Inr ((\<lambda>x. H (composite_string fuel H st x)) ` set xs)"
proof -
  let ?xs = "filter (highlighted st) (tl (preorder fuel st root))"
  have lt: "root < fuel" using assms(3,5) by simp
  have xs: "getClickableElements fuel st root = Inr ?xs"
    by (rule clickable_preorder[OF assms(1,3,4) lt])
  have "\<forall>x\<in>set ?xs. hashDomElement fuel H st x = Inr (H (composite_string fuel H st x))"
  proof
    fix x assume "x \<in> set ?xs"
    then have "highlighted st x" by simp
    then obtain e where "x < length st" "st ! x = Element e"
      using highlighted_valid by blast
    then show "hashDomElement fuel H st x = Inr (H (composite_string fuel H st x))"
      using hashDomElement_total[OF assms(2) _ assms(5)] by blast
  qed
  then have "map_results (hashDomElement fuel H st) ?xs
               = Inr (map (\<lambda>x. H (composite_string fuel H st x)) ?xs)"
    by (rule map_results_total)
  then have "getClickableElementsHashes fuel H st root =
                 Inr ((\<lambda>x. H (composite_string fuel H st x)) ` set ?xs)"
    using xs by (simp add: getClickableElementsHashes_def)
  then show ?thesis using xs by blast
qed

theorem C8_witness:
  "children_below bottom_up_heap \<and> parents_above bottom_up_heap
   \<and> 1 < length bottom_up_heap \<and> is_element_at bottom_up_heap 1 \<and> length bottom_up_heap \<le> 2
   \<and> getClickableElements 2 bottom_up_heap 1 = Inr [0]
   \<and> getClickableElementsHashes 2 id bottom_up_heap 1
        = Inr {composite_string 2 id bottom_up_heap 0}"
proof -
  obtain xs where xs: "getClickableElements 2 bottom_up_heap 1 = Inr xs"
    and hs: "getClickableElementsHashes 2 id bottom_up_heap 1 =
                 Inr ((\<lambda>x. id (composite_string 2 id bottom_up_heap x)) ` set xs)"
    using C8_hash_set_of_hashed_composites[OF bottom_up_shape, of id] by blast
  have "xs = [0]" using xs bottom_up_collect by simp
  then show ?thesis using hs bottom_up_shape bottom_up_collect by simp
qed


text \<open>
  C8 as stated fails for every hash primitive with digests of one fixed length, on the
  body with its one button: a member of the code's set has the length of a digest, the
  composite string has three times that length and two more.
\<close>

theorem C8_counterexample:
  "\<not> (\<exists>H L. (\<forall>s. length (H s) = L)
          \<and> getClickableElementsHashes 2 H bottom_up_heap 1 = spec_hashSet 2 H bottom_up_heap 1)"
proof
  assume "\<exists>H L. (\<forall>s. length (H s) = L)
          \<and> getClickableElementsHashes 2 H bottom_up_heap 1 = spec_hashSet 2 H bottom_up_heap 1"
  then obtain H :: "string \<Rightarrow> string" and L where len: "\<And>s. length (H s) = L"
    and eq: "getClickableElementsHashes 2 H bottom_up_heap 1 = spec_hashSet 2 H bottom_up_heap 1"
    by blast
  have el: "bottom_up_heap ! 0 =
      element_node ''button'' ''/html/body/button'' [(''id'', ''go'')] [] (Some 0) True (Some 1)"
    by (simp add: bottom_up_heap_def)
  have code: "getClickableElementsHashes 2 H bottom_up_heap 1
                = Inr {H (composite_string 2 H bottom_up_heap 0)}"
    using hashDomElement_total[OF bottom_up_shape(2) _ bottom_up_shape(5) el[unfolded element_node_def], of H]
      bottom_up_collect
    by (simp add: getClickableElementsHashes_def bottom_up_heap_def)
  have spec: "spec_hashSet 2 H bottom_up_heap 1 = Inr {composite_string 2 H bottom_up_heap 0}"
    using bottom_up_collect by (simp add: spec_hashSet_def)
  have "H (composite_string 2 H bottom_up_heap 0) = composite_string 2 H bottom_up_heap 0"
    using eq code spec by simp
  then have "length (H (composite_string 2 H bottom_up_heap 0))
               = length (composite_string 2 H bottom_up_heap 0)"
    by simp
  moreover have "length (composite_string 2 H bottom_up_heap 0) = L + 1 + L + 1 + L"
    using hash_total[OF bottom_up_shape(2) _ bottom_up_shape(5) el[unfolded element_node_def], of H]
    by (simp add: composite_string_def bottom_up_heap_def len priv_parentBranchPathHash_def
          priv_attributesHash_def priv_xpathHash_def priv_hashString_def)
  ultimately show False using len by simp
qed


section \<open>Claim C9\<close>

text \<open>
  C9, as the code has it. Construction does not check the table; the invariant holds for
  the tables a snapshot provider produces. For a raw table (with distinct keys) in which
  no key and no listed child id is a property name that every object inherits, no record
  lists its own id, no id is listed by two records and no record lists the root id, in
  every tree that construction returns each node in a children list has its parent
  back-reference set to exactly the node that holds the list, the children relation is
  acyclic (a child has a smaller reference than its parent, a parent a larger one than
  its child), the root is an element without a parent and every node below it has one.
  Collection, fingerprinting, history capture and lookup are functions of the store and
  return no store: they leave the tree as it is. What construction makes of a child id
  that is an inherited name is left out here.
\<close>

theorem C9_parent_child_consistency:
  assumes "distinct (map fst tbl)" and "no_self_listing tbl" and "single_listing tbl"
      and "unlisted tbl rootId" and "plain_ids tbl"
      and "constructDOMTree tbl rootId = Inr (root, sel, st)"
  shows "parent_child_consistent st
       \<and> acyclic (child_relation st)
       \<and> children_below st \<and> parents_above st
       \<and> is_element_at st root \<and> parent_of (st ! root) = None
       \<and> (\<forall>c. (c, root) \<in> (child_relation st)\<^sup>+ \<longrightarrow> parent_of (st ! c) \<noteq> None)"
proof -
  let ?s = "build_nodes tbl"
  have L: "linked (object_entries tbl) ?s" by (rule linked_build[OF assms(1,2,3,5)])
  have ip: "inheritedParent ?s ''__proto__'' = None"
    by (simp add: build_plain(1)[OF assms(5)])
  have res: "nodeMap ?s rootId = Some root" "st = heap_of ?s" "is_element_at st root"
    using assms(6) ip
    by (auto simp: constructDOMTree_def read_nodeMap_def Let_def is_element_at_def
          split: option.splits node.splits target.splits if_splits)
  have cons: "parent_child_consistent st" using linked_consistent[OF L] res(2) by simp
  have cb: "children_below st" using linked_children_below[OF L] res(2) by simp
  have pa: "parents_above st" using linked_parents_above[OF L] res(2) by simp
  have ac: "acyclic (child_relation st)" by (rule children_below_acyclic[OF cb])
  have rp: "parent_of (st ! root) = None"
    unfolding res(2)
  proof (rule linked_root_parentless[OF L res(1)])
    fix k raw assume "(k, raw) \<in> set (object_entries tbl)"
    then show "rootId \<notin> set (childIds raw)"
      using unlistedD[OF assms(4)] by (simp add: set_object_entries)
  qed
  have desc: "\<forall>c. (c, root) \<in> (child_relation st)\<^sup>+ \<longrightarrow> parent_of (st ! c) \<noteq> None"
  proof (intro allI impI)
    fix c assume "(c, root) \<in> (child_relation st)\<^sup>+"
    then obtain a where "(c, a) \<in> child_relation st" by (meson tranclD)
    then have "a < length st" "c \<in> set (children_of (st ! a))"
      by (simp_all add: child_relation_def)
    then have "parent_of (st ! c) = Some a"
      using cons unfolding parent_child_consistent_def by simp
    then show "parent_of (st ! c) \<noteq> None" by simp
  qed
  show ?thesis using cons ac cb pa res(3) rp desc by blast
qed

theorem C9_witness:
  "distinct (map fst bottom_up_table) \<and> no_self_listing bottom_up_table
   \<and> single_listing bottom_up_table \<and> unlisted bottom_up_table ''1''
   \<and> plain_ids bottom_up_table
   \<and> constructDOMTree bottom_up_table ''1'' = Inr (1, [0 \<mapsto> 0], bottom_up_heap)
   \<and> parent_child_consistent bottom_up_heap \<and> acyclic (child_relation bottom_up_heap)
   \<and> parent_of (bottom_up_heap ! 1) = None"
  using C9_parent_child_consistency[OF bottom_up_table_shape bottom_up_plain bottom_up_construct]
    bottom_up_table_shape bottom_up_plain bottom_up_construct
  by simp


text \<open>
  C9 as stated fails on a table in which a record lists itself, two records list the
  same id and the root is listed: the text node is a child of the \<open>div\<close> while its
  parent is the body, the \<open>div\<close> is its own child, and the root has a parent.
\<close>

theorem C9_counterexample:
  "constructDOMTree tangled_table ''1'' = Inr (1, Map.empty, tangled_heap)
   \<and> 0 \<in> set (children_of (tangled_heap ! 1)) \<and> parent_of (tangled_heap ! 0) = Some 2
   \<and> \<not> parent_child_consistent tangled_heap
   \<and> 1 \<in> set (children_of (tangled_heap ! 1))
   \<and> \<not> acyclic (child_relation tangled_heap)
   \<and> parent_of (tangled_heap ! 1) = Some 2"
proof -
  have c: "constructDOMTree tangled_table ''1'' = Inr (1, Map.empty, tangled_heap)"
    by (simp add: constructDOMTree_def read_nodeMap_def tangled_build)
       (simp add: tangled_heap_def scenario_eval)
  have facts: "0 \<in> set (children_of (tangled_heap ! 1))" "parent_of (tangled_heap ! 0) = Some 2"
    "1 \<in> set (children_of (tangled_heap ! 1))" "parent_of (tangled_heap ! 1) = Some 2"
    "1 < length tangled_heap"
    by (simp_all add: tangled_heap_def element_node_def)
  have nc: "\<not> parent_child_consistent tangled_heap"
  proof
    assume "parent_child_consistent tangled_heap"
    then have "parent_of (tangled_heap ! 0) = Some 1"
      unfolding parent_child_consistent_def using facts(1,5) by simp
    then show False using facts(2) by simp
  qed
  have "(1, 1) \<in> child_relation tangled_heap"
    using facts(3,5) by (simp add: child_relation_def)
  then have na: "\<not> acyclic (child_relation tangled_heap)"
    unfolding acyclic_def by blast
  show ?thesis using c facts nc na by simp
qed


section \<open>Claim C10\<close>

text \<open>
  C10. Whenever \<open>getClickableElements\<close> returns, the root it was called on is not in the
  result, whether or not the root carries a highlight index; on a store of the shape
  construction builds the result is the list of highlighted nodes among the proper
  descendants of the root, in pre-order. \<open>findHistoryElementInTree\<close>, in contrast, tests the
  root itself: a root that carries a highlight index and whose three hashes equal those of
  the record is returned.
\<close>

theorem C10_collector_skips_root:
  "(getClickableElements fuel st root = Inr xs \<longrightarrow> root \<notin> set xs)
   \<and> (children_below st \<and> root < length st \<and> is_element_at st root \<and> root < fuel \<longrightarrow>
        getClickableElements fuel st root = Inr (filter (highlighted st) (tl (preorder fuel st root))))
   \<and> (highlighted st root \<and>
        priv_hashDomElement fuel H st root = Inr hashedNode \<and>
        hashes_equal hashedNode (priv_hashDomHistoryElement H h) \<longrightarrow>
        findHistoryElementInTree fuel H st h root = Inr (Some root))"
proof (intro conjI impI)
  assume "getClickableElements fuel st root = Inr xs"
  then show "root \<notin> set xs" by (rule getClickableElements_excludes_root)
next
  assume "children_below st \<and> root < length st \<and> is_element_at st root \<and> root < fuel"
  then show "getClickableElements fuel st root
               = Inr (filter (highlighted st) (tl (preorder fuel st root)))"
    using clickable_preorder by blast
next
  assume a: "highlighted st root \<and>
        priv_hashDomElement fuel H st root = Inr hashedNode \<and>
        hashes_equal hashedNode (priv_hashDomHistoryElement H h)"
  then obtain e where e: "root < length st" "st ! root = Element e"
    using highlighted_valid by blast
  then have hl: "highlightIndex e \<noteq> None" using a by (simp add: highlighted_Element)
  have "fuel \<noteq> 0"
  proof
    assume "fuel = 0"
    then have "priv_hashDomElement fuel H st root = Inl Diverges"
      by (simp add: priv_hashDomElement_def priv_getParentBranchPath_def)
    then show False using a by simp
  qed
  then obtain n where n: "fuel = Suc n" by (cases fuel) auto
  have "node_matches fuel H st (priv_hashDomHistoryElement H h) root (highlightIndex e) = Inr True"
    using a hl by (auto simp: node_matches_def)
  then show "findHistoryElementInTree fuel H st h root = Inr (Some root)"
    using e unfolding findHistoryElementInTree_def Let_def n by (simp add: lookup_valid)
qed

theorem C10_witness:
  "getClickableElements 2 highlighted_root_heap 1 = Inr [0]
   \<and> 1 \<notin> set [0::nat]
   \<and> children_below highlighted_root_heap \<and> 1 < length highlighted_root_heap
   \<and> is_element_at highlighted_root_heap 1
   \<and> filter (highlighted highlighted_root_heap) (tl (preorder 2 highlighted_root_heap 1)) = [0]
   \<and> highlighted highlighted_root_heap 1
   \<and> findHistoryElementInTree 2 id highlighted_root_heap body_record 1 = Inr (Some 1)"
proof -
  have c: "getClickableElements 2 highlighted_root_heap 1 = Inr [0]"
    by (simp add: numeral_2_eq_2 highlighted_root_heap_def scenario_eval)
  have sh: "children_below highlighted_root_heap \<and> 1 < length highlighted_root_heap
      \<and> is_element_at highlighted_root_heap 1 \<and> (1::nat) < 2"
    by (simp add: children_below_def highlighted_root_heap_def scenario_eval)
  have hl: "highlighted highlighted_root_heap 1"
    by (simp add: highlighted_root_heap_def scenario_eval)
  have hs: "priv_hashDomElement 2 id highlighted_root_heap 1 =
      Inr (priv_hashDomHistoryElement id body_record)"
    by (simp add: numeral_2_eq_2 hash_eval highlighted_root_heap_def scenario_eval)
  have eq: "hashes_equal (priv_hashDomHistoryElement id body_record)
                         (priv_hashDomHistoryElement id body_record)"
    by (simp add: hashes_equal_def)
  note inst = C10_collector_skips_root[of 2 highlighted_root_heap 1 "[0]" id
            "priv_hashDomHistoryElement id body_record" body_record]
  have f: "filter (highlighted highlighted_root_heap) (tl (preorder 2 highlighted_root_heap 1)) = [0]"
    using inst sh c by simp
  have g: "findHistoryElementInTree 2 id highlighted_root_heap body_record 1 = Inr (Some 1)"
    using inst hl hs eq by simp
  show ?thesis using inst c sh hl f g by simp
qed

end
